theory Spec2Isabelle
  imports Complex_Main "HOL-Library.Word"
begin

unbundle bit_operations_syntax

section \<open>Colours and numbers\<close>

text \<open>
  Go's \<^verbatim>\<open>float64\<close> is idealised as \<^typ>\<open>real\<close> throughout: sums, halves and
  products of the integers that occur are exact in both. Go's \<^verbatim>\<open>int\<close> is \<^typ>\<open>int\<close>;
  the pixel arithmetic of this package stays far below 64 bits.

  A \<^verbatim>\<open>color.Color\<close> is modelled by what its \<^verbatim>\<open>RGBA()\<close> method returns: four
  \<^verbatim>\<open>uint32\<close> channels.
\<close>

record color =
  red :: "32 word"
  green :: "32 word"
  blue :: "32 word"
  alpha :: "32 word"

text \<open>\<^verbatim>\<open>uint8(v >> 8)\<close> on a \<^verbatim>\<open>uint32\<close>.\<close>

definition shr8 :: "32 word \<Rightarrow> 8 word" where
  "shr8 v = ucast (drop_bit 8 v)"

text \<open>Go's integer division truncates toward zero.\<close>

definition quo :: "int \<Rightarrow> int \<Rightarrow> int" where
  "quo a b = sgn a * sgn b * (\<bar>a\<bar> div \<bar>b\<bar>)"

text \<open>Conversion \<^verbatim>\<open>int(f)\<close> of a float64: truncation toward zero.\<close>

definition trunc :: "real \<Rightarrow> int" where
  "trunc f = (if 0 \<le> f then \<lfloor>f\<rfloor> else \<lceil>f\<rceil>)"

text \<open>\<^verbatim>\<open>color.Black\<close>, \<^verbatim>\<open>color.White\<close> and \<^verbatim>\<open>color.Transparent\<close>.\<close>

definition Black :: color where
  "Black = \<lparr>red = 0, green = 0, blue = 0, alpha = 0xffff\<rparr>"

definition White :: color where
  "White = \<lparr>red = 0xffff, green = 0xffff, blue = 0xffff, alpha = 0xffff\<rparr>"

definition Transparent :: color where
  "Transparent = \<lparr>red = 0, green = 0, blue = 0, alpha = 0\<rparr>"

section \<open>Images\<close>

text \<open>
  \<^verbatim>\<open>image.Rectangle\<close>, and \<^verbatim>\<open>image.Rect\<close>, which swaps coordinates given in the wrong
  order.
\<close>

record Rectangle =
  Min_X :: int
  Min_Y :: int
  Max_X :: int
  Max_Y :: int

definition Rect :: "int \<Rightarrow> int \<Rightarrow> int \<Rightarrow> int \<Rightarrow> Rectangle" where
  "Rect x0 y0 x1 y1 =
     \<lparr>Min_X = (if x0 > x1 then x1 else x0), Min_Y = (if y0 > y1 then y1 else y0),
      Max_X = (if x0 > x1 then x0 else x1), Max_Y = (if y0 > y1 then y0 else y1)\<rparr>"

text \<open>
  An \<^verbatim>\<open>image.Image\<close> is its \<^verbatim>\<open>Bounds()\<close> and its \<^verbatim>\<open>At(x, y)\<close>. An \<^verbatim>\<open>*image.Gray\<close>
  and an \<^verbatim>\<open>*image.RGBA\<close> are a rectangle and the stored bytes, here a function of the
  pixel's coordinates (the stride layout of \<^verbatim>\<open>Pix\<close> is not modelled). Their methods
  follow the standard library: writes outside the rectangle do nothing, reads outside it
  give the zero colour.
\<close>

record Image =
  Bounds :: Rectangle
  At :: "int \<Rightarrow> int \<Rightarrow> color"

record GrayImage =
  GrayPix :: "int \<times> int \<Rightarrow> 8 word"
  GrayRect :: Rectangle

record RGBAImage =
  RGBAPix :: "int \<times> int \<Rightarrow> 8 word \<times> 8 word \<times> 8 word \<times> 8 word"
  RGBARect :: Rectangle

definition PointIn :: "int \<Rightarrow> int \<Rightarrow> Rectangle \<Rightarrow> bool" where
  "PointIn px py r = (Min_X r \<le> px \<and> px < Max_X r \<and> Min_Y r \<le> py \<and> py < Max_Y r)"

definition NewGray :: "Rectangle \<Rightarrow> GrayImage" where
  "NewGray r = \<lparr>GrayPix = (\<lambda>p. 0), GrayRect = r\<rparr>"

definition NewRGBA :: "Rectangle \<Rightarrow> RGBAImage" where
  "NewRGBA r = \<lparr>RGBAPix = (\<lambda>p. (0, 0, 0, 0)), RGBARect = r\<rparr>"

section \<open>The drawing command interface and the built-in shapes\<close>

text \<open>
  \<^verbatim>\<open>GraphicsContext\<close> (image_qr_shape.go) is an interface; a shape is modelled by the
  sequence of interface calls it makes, in order.
\<close>

datatype gcall =
    CallMoveTo real real
  | CallLineTo real real
  | CallQuadraticTo real real real real
  | CallClosePath
  | CallDrawCircle real real real
  | CallDrawRectangle real real real real
  | CallSetColor color
  | CallFill
  | CallSetDash "real list"
  | CallSetLineWidth real
  | CallSetLineCap int
  | CallSetLineCapSquare
  | CallStroke
  | CallSetFillRuleEvenOdd
  | CallNewSubPath
  | CallSetFillRuleWinding

text \<open>
  The fields \<^verbatim>\<open>x, y, w, h, color, neighbours\<close> of \<^verbatim>\<open>DrawContext\<close>, prefixed
  (the bare letters are needed as variables). The embedded GraphicsContext is the
  receiver of the calls and is not a field here.
\<close>

record DrawContext =
  dc_x :: real
  dc_y :: real
  dc_w :: int
  dc_h :: int
  dc_color :: color
  dc_neighbours :: "16 word"

definition UpperLeft :: "DrawContext \<Rightarrow> real \<times> real" where
  "UpperLeft dc = (dc_x dc, dc_y dc)"

definition Edge :: "DrawContext \<Rightarrow> int \<times> int" where
  "Edge dc = (dc_w dc, dc_h dc)"

definition rectangle_Draw :: "DrawContext \<Rightarrow> gcall list" where
  "rectangle_Draw c =
     [CallDrawRectangle (dc_x c) (dc_y c) (of_int (dc_w c)) (of_int (dc_h c)),
      CallSetColor (dc_color c),
      CallFill]"

definition circle_Draw :: "DrawContext \<Rightarrow> gcall list" where
  "circle_Draw c =
     (let radius = quo (dc_w c) 2;
          r2 = quo (dc_h c) 2;
          radius = (if r2 \<le> radius then r2 else radius);
          cx = dc_x c + of_int (dc_w c) / 2;
          cy = dc_y c + of_int (dc_h c) / 2
      in [CallDrawCircle cx cy (of_int radius),
          CallSetColor (dc_color c),
          CallFill])"

text \<open>
  \<^verbatim>\<open>svgCircle.GenerateSVGPath\<close> (image_format.go), the circle of the SVG encoder: it
  computes the radius in float64. The two-decimal formatter is the parameter \<open>F\<close>.
\<close>

definition svgCircle_GenerateSVGPath :: "(real \<Rightarrow> string) \<Rightarrow> DrawContext \<Rightarrow> bool \<Rightarrow> string" where
  "svgCircle_GenerateSVGPath F ctx hg =
     (let cx = fst (UpperLeft ctx) + of_int (fst (Edge ctx)) / 2;
          cy = snd (UpperLeft ctx) + of_int (snd (Edge ctx)) / 2;
          radius = of_int (fst (Edge ctx)) / 2;
          radius = (if of_int (snd (Edge ctx)) / 2 < radius then of_int (snd (Edge ctx)) / 2
                    else radius)
      in ''<circle cx='' @ [CHR 0x22] @ F cx @ [CHR 0x22] @ '' cy='' @ [CHR 0x22] @ F cy @
         [CHR 0x22] @ '' r='' @ [CHR 0x22] @ F radius @ [CHR 0x22] @ ''/>'')"

definition circle_DrawFinder :: "DrawContext \<Rightarrow> gcall list" where
  "circle_DrawFinder ctx = circle_Draw ctx"

section \<open>The SVG path recorder\<close>

text \<open>
  \<^verbatim>\<open>fmt.Sprintf("%.2f", v)\<close> is library code: the formatter of a float64 with two
  decimals is a parameter \<open>F\<close> of every function that prints one.
\<close>

type_synonym fmtf = "real \<Rightarrow> string"

definition dq :: string where
  "dq = [CHR 0x22]"

text \<open>\<^verbatim>\<open>strings.Join\<close>.\<close>

fun Join :: "string list \<Rightarrow> string \<Rightarrow> string" where
  "Join [] sep = []"
| "Join [a] sep = a"
| "Join (a # b # rest) sep = a @ sep @ Join (b # rest) sep"

definition hexdigit :: "nat \<Rightarrow> char" where
  "hexdigit n = ''0123456789abcdef'' ! (n mod 16)"

text \<open>\<^verbatim>\<open>%02x\<close> of a \<^verbatim>\<open>uint8\<close>.\<close>

definition hex2 :: "8 word \<Rightarrow> string" where
  "hex2 v = [hexdigit (unat v div 16), hexdigit (unat v mod 16)]"

text \<open>
  \<^verbatim>\<open>colorToHex\<close>: a nil colour gives the empty string; otherwise the colour is
  converted by \<^verbatim>\<open>color.RGBAModel\<close> (each channel \<^verbatim>\<open>uint8(v >> 8)\<close>) and printed as
  \<^verbatim>\<open>#%02x%02x%02x\<close>.
\<close>

definition colorToHex :: "color option \<Rightarrow> string" where
  "colorToHex c =
     (case c of
        None \<Rightarrow> ''''
      | Some k \<Rightarrow> ''#'' @ hex2 (shr8 (red k)) @ hex2 (shr8 (green k)) @ hex2 (shr8 (blue k)))"

record svgPathRecorder =
  pathElements :: "string list"
  currentCommands :: "string list"
  currentX :: real
  currentY :: real
  strokeDash :: "real list"
  strokeWidth :: real
  strokeLineCap :: string
  fillRule :: string
  currentColor :: "color option"
  hasGradient :: bool

definition NewSVGPathRecorder :: "bool \<Rightarrow> svgPathRecorder" where
  "NewSVGPathRecorder hg =
     \<lparr>pathElements = [], currentCommands = [], currentX = 0, currentY = 0,
      strokeDash = [], strokeWidth = 0, strokeLineCap = '''', fillRule = '''',
      currentColor = None, hasGradient = hg\<rparr>"

definition MoveTo :: "fmtf \<Rightarrow> real \<Rightarrow> real \<Rightarrow> svgPathRecorder \<Rightarrow> svgPathRecorder" where
  "MoveTo F px py r =
     r\<lparr>currentCommands := currentCommands r @ [''M'' @ F px @ '' '' @ F py],
       currentX := px, currentY := py\<rparr>"

definition LineTo :: "fmtf \<Rightarrow> real \<Rightarrow> real \<Rightarrow> svgPathRecorder \<Rightarrow> svgPathRecorder" where
  "LineTo F px py r =
     r\<lparr>currentCommands := currentCommands r @ [''L'' @ F px @ '' '' @ F py],
       currentX := px, currentY := py\<rparr>"

definition QuadraticTo ::
  "fmtf \<Rightarrow> real \<Rightarrow> real \<Rightarrow> real \<Rightarrow> real \<Rightarrow> svgPathRecorder \<Rightarrow> svgPathRecorder" where
  "QuadraticTo F cx cy px py r =
     r\<lparr>currentCommands := currentCommands r @
         [''Q'' @ F cx @ '' '' @ F cy @ '' '' @ F px @ '' '' @ F py],
       currentX := px, currentY := py\<rparr>"

definition ClosePath :: "svgPathRecorder \<Rightarrow> svgPathRecorder" where
  "ClosePath r = r\<lparr>currentCommands := currentCommands r @ [''Z'']\<rparr>"

definition DrawCircle :: "fmtf \<Rightarrow> real \<Rightarrow> real \<Rightarrow> real \<Rightarrow> svgPathRecorder \<Rightarrow> svgPathRecorder" where
  "DrawCircle F cx cy radius r =
     r\<lparr>currentCommands := currentCommands r @
         [''M'' @ F (cx + radius) @ '' '' @ F cy @
          '' A'' @ F radius @ '' '' @ F radius @ '' 0 1 1 '' @ F (cx - radius) @ '' '' @ F cy @
          '' A'' @ F radius @ '' '' @ F radius @ '' 0 1 1 '' @ F (cx + radius) @ '' '' @ F cy @
          '' Z''],
       currentX := cx + radius, currentY := cy\<rparr>"

definition DrawRectangle ::
  "fmtf \<Rightarrow> real \<Rightarrow> real \<Rightarrow> real \<Rightarrow> real \<Rightarrow> svgPathRecorder \<Rightarrow> svgPathRecorder" where
  "DrawRectangle F px py pw ph r =
     r\<lparr>currentCommands := currentCommands r @
         [''M'' @ F px @ '' '' @ F py @
          '' L'' @ F (px + pw) @ '' '' @ F py @
          '' L'' @ F (px + pw) @ '' '' @ F (py + ph) @
          '' L'' @ F px @ '' '' @ F (py + ph) @ '' Z''],
       currentX := px, currentY := py + ph\<rparr>"

definition SetColor :: "color \<Rightarrow> svgPathRecorder \<Rightarrow> svgPathRecorder" where
  "SetColor c r = r\<lparr>currentColor := Some c\<rparr>"

definition generateSVGPathElement ::
  "fmtf \<Rightarrow> svgPathRecorder \<Rightarrow> string \<Rightarrow> string \<Rightarrow> string \<Rightarrow> string" where
  "generateSVGPathElement F r pathData operation colorStr =
     (let attrs =
        (if operation = ''fill'' then
           (if fillRule r \<noteq> '''' then [''fill-rule='' @ dq @ fillRule r @ dq] else []) @
           (if colorStr \<noteq> '''' then [''fill='' @ dq @ colorStr @ dq] else [])
         else if operation = ''stroke'' then
           (if colorStr \<noteq> '''' then [''stroke='' @ dq @ colorStr @ dq] else []) @
           (if strokeWidth r > 0 then [''stroke-width='' @ dq @ F (strokeWidth r) @ dq] else []) @
           (if strokeLineCap r \<noteq> '''' then [''stroke-linecap='' @ dq @ strokeLineCap r @ dq]
            else []) @
           (if length (strokeDash r) > 0
            then [''stroke-dasharray='' @ dq @ Join (map F (strokeDash r)) '' '' @ dq] else []) @
           [''fill='' @ dq @ ''none'' @ dq]
         else [])
      in if length attrs > 0
         then ''<path d='' @ dq @ pathData @ dq @ '' '' @ Join attrs '' '' @ ''/>''
         else ''<path d='' @ dq @ pathData @ dq @ ''/>'')"

definition Fill :: "fmtf \<Rightarrow> svgPathRecorder \<Rightarrow> svgPathRecorder" where
  "Fill F r =
     (let r1 =
        (if length (currentCommands r) > 0 then
           (let pathData = Join (currentCommands r) '' '';
                colorStr = (if \<not> hasGradient r then colorToHex (currentColor r) else '''')
            in r\<lparr>pathElements := pathElements r @ [generateSVGPathElement F r pathData ''fill'' colorStr],
                 currentCommands := []\<rparr>)
         else r)
      in r1\<lparr>strokeDash := [], strokeWidth := 0, strokeLineCap := ''''\<rparr>)"

definition Stroke :: "fmtf \<Rightarrow> svgPathRecorder \<Rightarrow> svgPathRecorder" where
  "Stroke F r =
     (let r1 =
        (if length (currentCommands r) > 0 then
           (let pathData = Join (currentCommands r) '' '';
                colorStr = colorToHex (currentColor r)
            in r\<lparr>pathElements := pathElements r @ [generateSVGPathElement F r pathData ''stroke'' colorStr],
                 currentCommands := []\<rparr>)
         else r)
      in r1\<lparr>strokeDash := [], strokeWidth := 0, strokeLineCap := ''''\<rparr>)"

definition SetDash :: "real list \<Rightarrow> svgPathRecorder \<Rightarrow> svgPathRecorder" where
  "SetDash dashes r = r\<lparr>strokeDash := dashes\<rparr>"

definition SetLineWidth :: "real \<Rightarrow> svgPathRecorder \<Rightarrow> svgPathRecorder" where
  "SetLineWidth lineWidth r = r\<lparr>strokeWidth := lineWidth\<rparr>"

definition SetLineCap :: "int \<Rightarrow> svgPathRecorder \<Rightarrow> svgPathRecorder" where
  "SetLineCap lineCap r =
     (if lineCap = 0 then r\<lparr>strokeLineCap := ''butt''\<rparr>
      else if lineCap = 1 then r\<lparr>strokeLineCap := ''round''\<rparr>
      else if lineCap = 2 then r\<lparr>strokeLineCap := ''square''\<rparr>
      else r\<lparr>strokeLineCap := ''butt''\<rparr>)"

definition SetLineCapSquare :: "svgPathRecorder \<Rightarrow> svgPathRecorder" where
  "SetLineCapSquare r = r\<lparr>strokeLineCap := ''square''\<rparr>"

definition SetFillRuleEvenOdd :: "svgPathRecorder \<Rightarrow> svgPathRecorder" where
  "SetFillRuleEvenOdd r = r\<lparr>fillRule := ''evenodd''\<rparr>"

definition SetFillRuleWinding :: "svgPathRecorder \<Rightarrow> svgPathRecorder" where
  "SetFillRuleWinding r = r\<lparr>fillRule := ''nonzero''\<rparr>"

definition NewSubPath :: "svgPathRecorder \<Rightarrow> svgPathRecorder" where
  "NewSubPath r = r"

text \<open>
  \<^verbatim>\<open>toSVGPath\<close>: finalise with \<^verbatim>\<open>Fill\<close>, then join the path elements with the
  empty separator.
\<close>

definition toSVGPath :: "fmtf \<Rightarrow> svgPathRecorder \<Rightarrow> string" where
  "toSVGPath F r =
     (let r' = Fill F r
      in if length (pathElements r') = 0 then '''' else Join (pathElements r') '''')"

text \<open>The recorder as receiver of one interface call, and of a shape's calls in order.\<close>

fun record_call :: "fmtf \<Rightarrow> svgPathRecorder \<Rightarrow> gcall \<Rightarrow> svgPathRecorder" where
  "record_call F r (CallMoveTo px py) = MoveTo F px py r"
| "record_call F r (CallLineTo px py) = LineTo F px py r"
| "record_call F r (CallQuadraticTo cx cy px py) = QuadraticTo F cx cy px py r"
| "record_call F r CallClosePath = ClosePath r"
| "record_call F r (CallDrawCircle cx cy radius) = DrawCircle F cx cy radius r"
| "record_call F r (CallDrawRectangle px py pw ph) = DrawRectangle F px py pw ph r"
| "record_call F r (CallSetColor c) = SetColor c r"
| "record_call F r CallFill = Fill F r"
| "record_call F r (CallSetDash dashes) = SetDash dashes r"
| "record_call F r (CallSetLineWidth lw) = SetLineWidth lw r"
| "record_call F r (CallSetLineCap lc) = SetLineCap lc r"
| "record_call F r CallSetLineCapSquare = SetLineCapSquare r"
| "record_call F r CallStroke = Stroke F r"
| "record_call F r CallSetFillRuleEvenOdd = SetFillRuleEvenOdd r"
| "record_call F r CallNewSubPath = NewSubPath r"
| "record_call F r CallSetFillRuleWinding = SetFillRuleWinding r"

definition record_calls :: "fmtf \<Rightarrow> svgPathRecorder \<Rightarrow> gcall list \<Rightarrow> svgPathRecorder" where
  "record_calls F r cs = foldl (record_call F) r cs"

text \<open>
  \<^verbatim>\<open>svgPathShape.GenerateSVGPath\<close>: a fresh recorder receives the calls of the wrapped
  shape's \<^verbatim>\<open>Draw\<close> on a copy of the context, and is finalised.
\<close>

definition svgPathShape_GenerateSVGPath ::
  "fmtf \<Rightarrow> (DrawContext \<Rightarrow> gcall list) \<Rightarrow> DrawContext \<Rightarrow> bool \<Rightarrow> string" where
  "svgPathShape_GenerateSVGPath F shape_Draw ctx hg =
     toSVGPath F (record_calls F (NewSVGPathRecorder hg) (shape_Draw ctx))"

text \<open>
  What the recorder is to hold for each call, after the description of the path recorder:
  MoveTo, LineTo, QuadraticTo and ClosePath append the tokens \<^verbatim>\<open>M\<close>, \<^verbatim>\<open>L\<close>, \<^verbatim>\<open>Q\<close>
  and \<^verbatim>\<open>Z\<close>; a circle is expanded to a closed path of two arcs, a rectangle to a closed
  path through its four corners; no other call adds a command.
\<close>

fun pathToken :: "fmtf \<Rightarrow> gcall \<Rightarrow> string option" where
  "pathToken F (CallMoveTo px py) = Some (''M'' @ F px @ '' '' @ F py)"
| "pathToken F (CallLineTo px py) = Some (''L'' @ F px @ '' '' @ F py)"
| "pathToken F (CallQuadraticTo cx cy px py) =
     Some (''Q'' @ F cx @ '' '' @ F cy @ '' '' @ F px @ '' '' @ F py)"
| "pathToken F CallClosePath = Some ''Z''"
| "pathToken F (CallDrawCircle cx cy radius) =
     Some (''M'' @ F (cx + radius) @ '' '' @ F cy @
           '' A'' @ F radius @ '' '' @ F radius @ '' 0 1 1 '' @ F (cx - radius) @ '' '' @ F cy @
           '' A'' @ F radius @ '' '' @ F radius @ '' 0 1 1 '' @ F (cx + radius) @ '' '' @ F cy @
           '' Z'')"
| "pathToken F (CallDrawRectangle px py pw ph) =
     Some (''M'' @ F px @ '' '' @ F py @
           '' L'' @ F (px + pw) @ '' '' @ F py @
           '' L'' @ F (px + pw) @ '' '' @ F (py + ph) @
           '' L'' @ F px @ '' '' @ F (py + ph) @ '' Z'')"
| "pathToken F c = None"

definition pathTokens :: "fmtf \<Rightarrow> gcall list \<Rightarrow> string list" where
  "pathTokens F cs = concat (map (\<lambda>c. case pathToken F c of None \<Rightarrow> [] | Some t \<Rightarrow> [t]) cs)"

text \<open>A call that commits the pending commands.\<close>

fun commits :: "gcall \<Rightarrow> bool" where
  "commits CallFill = True"
| "commits CallStroke = True"
| "commits c = False"

section \<open>Options and the canvas of the vector encoders\<close>

text \<open>
  \<^verbatim>\<open>WithBorderWidth\<close> fills the array \<^verbatim>\<open>borderWidths [4]int\<close> as top, right, bottom,
  left. The array is a list of length four here; \<^verbatim>\<open>_defaultPadding\<close> is declared
  outside the given sources and is the parameter \<open>defaultPadding\<close>.
\<close>

definition apply_borders :: "int \<Rightarrow> int \<Rightarrow> int \<Rightarrow> int \<Rightarrow> int list" where
  "apply_borders wtop wright wbottom wleft = [wtop, wright, wbottom, wleft]"

definition WithBorderWidth :: "int \<Rightarrow> int list \<Rightarrow> int list" where
  "WithBorderWidth defaultPadding widths =
     (let n = length widths in
      if n = 0 then apply_borders defaultPadding defaultPadding defaultPadding defaultPadding
      else if n = 1 then apply_borders (widths ! 0) (widths ! 0) (widths ! 0) (widths ! 0)
      else if n = 2 \<or> n = 3 then apply_borders (widths ! 0) (widths ! 1) (widths ! 0) (widths ! 1)
      else apply_borders (widths ! 0) (widths ! 1) (widths ! 2) (widths ! 3))"

text \<open>
  The first two statements of \<^verbatim>\<open>svgEncoder.EncodeMatrix\<close> (both revisions): the width
  and height written into the \<^verbatim>\<open><svg>\<close> element. \<open>bw\<close> is \<^verbatim>\<open>opts.qrBlockWidth()\<close>.
\<close>

definition svgEncoder_canvas :: "int \<Rightarrow> int \<Rightarrow> int \<Rightarrow> int list \<Rightarrow> int \<times> int" where
  "svgEncoder_canvas cols rows bw borderWidths =
     (cols * bw + borderWidths ! 0 + borderWidths ! 1,
      rows * bw + borderWidths ! 2 + borderWidths ! 3)"

text \<open>The same two values in \<^verbatim>\<open>SvgoEncoder.EncodeMatrix\<close>.\<close>

definition SvgoEncoder_canvas :: "int \<Rightarrow> int \<Rightarrow> int \<Rightarrow> int list \<Rightarrow> int \<times> int" where
  "SvgoEncoder_canvas cols rows bw borderWidths =
     (cols * bw + borderWidths ! 3 + borderWidths ! 1,
      rows * bw + borderWidths ! 0 + borderWidths ! 2)"

text \<open>
  The pixel origin of the module in column \<open>mx\<close> and row \<open>my\<close>, as every encoder
  computes it (\<^verbatim>\<open>blockX\<close>, \<^verbatim>\<open>blockY\<close>).
\<close>

definition blockOrigin :: "int \<Rightarrow> int list \<Rightarrow> int \<Rightarrow> int \<Rightarrow> int \<times> int" where
  "blockOrigin bw borderWidths mx my =
     (mx * bw + borderWidths ! 3, my * bw + borderWidths ! 0)"

section \<open>The per-module rendering pass\<close>

text \<open>
  The matrix and its values come from the external package \<^verbatim>\<open>go-qrcode/v2\<close>: a value
  answers \<^verbatim>\<open>IsSet()\<close> and \<^verbatim>\<open>Type()\<close>. Only the types \<^verbatim>\<open>QRType_DATA\<close> and
  \<^verbatim>\<open>QRType_FINDER\<close> are named in the sources; the others are \<open>QRType_other\<close>.
\<close>

datatype QRType = QRType_DATA | QRType_FINDER | QRType_other nat

record QRValue =
  IsSet :: bool
  QType :: QRType

text \<open>
  What the callback passed to \<^verbatim>\<open>mat.Iterate\<close> reads: fields of \<^verbatim>\<open>opts\<close>, local
  variables of \<^verbatim>\<open>EncodeMatrix\<close>, and functions declared outside the given sources
  (\<^verbatim>\<open>translateToRGBA\<close>, \<^verbatim>\<open>halftoneColor\<close>, \<^verbatim>\<open>blockOverlapsLogo\<close>,
  \<^verbatim>\<open>getNeighbours\<close>, the \<^verbatim>\<open>SVGShape\<close> chosen by \<^verbatim>\<open>getSVGShape\<close>), which are taken
  as parameters. \<open>halftoneColor\<close> and \<open>getNeighbours\<close> are already applied to the
  halftone image with \<^verbatim>\<open>opts.bgTransparent\<close>, and to the bitmap. \<open>halftoneGray\<close> is
  \<^verbatim>\<open>halftoneImg.At\<close> of the first revision, \<open>Some v\<close> when the colour is a
  \<^verbatim>\<open>color.Gray\<close> of value \<open>v\<close>.
\<close>

record renderEnv =
  qrBlockWidth :: int
  borderWidths :: "int list"
  gradientSet :: bool
  logoPresent :: bool
  logoValid :: bool
  logoSafeZone :: bool
  logoWidth :: int
  logoHeight :: int
  canvasWidth :: int
  canvasHeight :: int
  matWidth :: int
  hasHalftone :: bool
  translateToRGBA :: "QRValue \<Rightarrow> color"
  halftoneColor :: "int \<Rightarrow> int \<Rightarrow> color"
  halftoneGray :: "int \<Rightarrow> int \<Rightarrow> 8 word option"
  blockOverlapsLogo :: "int \<Rightarrow> int \<Rightarrow> int \<Rightarrow> int \<Rightarrow> int \<Rightarrow> int \<Rightarrow> int \<Rightarrow> int \<Rightarrow> int \<Rightarrow> bool"
  getNeighbours :: "int \<Rightarrow> int \<Rightarrow> 16 word"
  GenerateSVGPath :: "DrawContext \<Rightarrow> bool \<Rightarrow> string"
  GenerateSVGFinder :: "DrawContext \<Rightarrow> bool \<Rightarrow> string"

text \<open>
  The format strings of the encoders are raw string literals: their \<^verbatim>\<open>\n\<close> is a
  backslash and the letter n.
\<close>

definition bsn :: string where
  "bsn = [CHR 0x5C, CHR ''n'']"

text \<open>\<^verbatim>\<open>fmt.Sprintf("#%02x%02x%02x", uint8(r>>8), uint8(g>>8), uint8(b>>8))\<close>.\<close>

definition hexRGB :: "color \<Rightarrow> string" where
  "hexRGB c = ''#'' @ hex2 (shr8 (red c)) @ hex2 (shr8 (green c)) @ hex2 (shr8 (blue c))"

text \<open>\<^verbatim>\<open>strings.Contains\<close>.\<close>

fun Contains :: "string \<Rightarrow> string \<Rightarrow> bool" where
  "Contains [] sub = (sub = [])"
| "Contains (c # cs) sub = (take (length sub) (c # cs) = sub \<or> Contains cs sub)"

definition moduleContext :: "renderEnv \<Rightarrow> int \<Rightarrow> int \<Rightarrow> QRValue \<Rightarrow> DrawContext" where
  "moduleContext E mx my v =
     \<lparr>dc_x = of_int (mx * qrBlockWidth E + borderWidths E ! 3),
      dc_y = of_int (my * qrBlockWidth E + borderWidths E ! 0),
      dc_w = qrBlockWidth E,
      dc_h = qrBlockWidth E,
      dc_color = translateToRGBA E v,
      dc_neighbours = getNeighbours E mx my\<rparr>"

text \<open>
  The body of the two halftone loops of \<^verbatim>\<open>svgEncoder.EncodeMatrix\<close> (second revision)
  for one \<open>i\<close> and \<open>j\<close>: nothing when the sub-cell's colour is transparent or pure
  white (\<^verbatim>\<open>continue\<close>), one written group otherwise.
\<close>

definition svgEncoder_subcell ::
  "renderEnv \<Rightarrow> int \<Rightarrow> int \<Rightarrow> QRValue \<Rightarrow> int \<Rightarrow> int \<Rightarrow> string list" where
  "svgEncoder_subcell E mx my v i j =
     (let drawCtx = moduleContext E mx my v;
          blockX = mx * qrBlockWidth E + borderWidths E ! 3;
          blockY = my * qrBlockWidth E + borderWidths E ! 0;
          halftoneW = of_int (qrBlockWidth E) / 3;
          subX = of_int blockX + of_int i * halftoneW;
          subY = of_int blockY + of_int j * halftoneW;
          subColor = (if i = 1 \<and> j = 1 then dc_color drawCtx
                      else halftoneColor E (mx * 3 + i) (my * 3 + j));
          r8 = shr8 (red subColor); g8 = shr8 (green subColor);
          b8 = shr8 (blue subColor); a8 = shr8 (alpha subColor)
      in if a8 = 0 \<or> (r8 = 255 \<and> g8 = 255 \<and> b8 = 255) then []
         else
           (let subFillStr = ''#'' @ hex2 r8 @ hex2 g8 @ hex2 b8;
                ctx2 = \<lparr>dc_x = subX, dc_y = subY, dc_w = trunc halftoneW, dc_h = trunc halftoneW,
                        dc_color = subColor, dc_neighbours = dc_neighbours drawCtx\<rparr>;
                pathData = GenerateSVGPath E ctx2 False
            in [''<g fill='' @ dq @ subFillStr @ dq @ ''>'' @ pathData @ ''</g>'' @ bsn]))"

definition svgEncoder_halftone :: "renderEnv \<Rightarrow> int \<Rightarrow> int \<Rightarrow> QRValue \<Rightarrow> string list" where
  "svgEncoder_halftone E mx my v =
     concat (map (\<lambda>i. concat (map (\<lambda>j. svgEncoder_subcell E mx my v i j) [0, 1, 2])) [0, 1, 2])"

text \<open>Normal block rendering, the same in both revisions of \<^verbatim>\<open>svgEncoder\<close>.\<close>

definition svgEncoder_normal :: "renderEnv \<Rightarrow> int \<Rightarrow> int \<Rightarrow> QRValue \<Rightarrow> string list" where
  "svgEncoder_normal E mx my v =
     (let drawCtx = moduleContext E mx my v;
          fillStr = (if gradientSet E then ''url(#qrGradient)'' else hexRGB (translateToRGBA E v));
          pathData = (case QType v of
                        QRType_FINDER \<Rightarrow> GenerateSVGFinder E drawCtx (gradientSet E)
                      | _ \<Rightarrow> GenerateSVGPath E drawCtx (gradientSet E));
          isComplexShape =
            (Contains pathData (''stroke='' @ dq) \<or> Contains pathData (''fill='' @ dq))
      in if isComplexShape then
           (if gradientSet E
            then [''<g fill='' @ dq @ ''url(#qrGradient)'' @ dq @ ''>'' @ pathData @ ''</g>'' @ bsn]
            else [''<g>'' @ pathData @ ''</g>'' @ bsn])
         else [''<g fill='' @ dq @ fillStr @ dq @ ''>'' @ pathData @ ''</g>'' @ bsn])"

definition overlapsLogo :: "renderEnv \<Rightarrow> int \<Rightarrow> int \<Rightarrow> bool" where
  "overlapsLogo E mx my =
     (logoValid E \<and> logoSafeZone E \<and>
      blockOverlapsLogo E mx my (qrBlockWidth E) (borderWidths E ! 3) (borderWidths E ! 0)
        (canvasWidth E) (canvasHeight E) (logoWidth E) (logoHeight E))"

text \<open>
  The callback of \<^verbatim>\<open>svgEncoder.EncodeMatrix\<close>, second revision: what it writes for the
  module at column \<open>mx\<close>, row \<open>my\<close>.
\<close>

definition svgEncoder_module :: "renderEnv \<Rightarrow> int \<Rightarrow> int \<Rightarrow> QRValue \<Rightarrow> string list" where
  "svgEncoder_module E mx my v =
     (if overlapsLogo E mx my then []
      else if hasHalftone E \<and> QType v = QRType_DATA then svgEncoder_halftone E mx my v
      else if \<not> IsSet v then []
      else svgEncoder_normal E mx my v)"

text \<open>The halftone loop body of the first revision of \<^verbatim>\<open>svgEncoder.EncodeMatrix\<close>.\<close>

definition legacy_subcell ::
  "fmtf \<Rightarrow> renderEnv \<Rightarrow> int \<Rightarrow> int \<Rightarrow> QRValue \<Rightarrow> int \<Rightarrow> int \<Rightarrow> string list" where
  "legacy_subcell F E mx my v i j =
     (let blockX = mx * qrBlockWidth E + borderWidths E ! 3;
          blockY = my * qrBlockWidth E + borderWidths E ! 0;
          halftoneW = of_int (qrBlockWidth E) / 3;
          halftoneImgWidth = matWidth E * 3;
          halftoneImgHeight = matWidth E * 3;
          halftoneX = mx * 3 + i;
          halftoneY = my * 3 + j;
          fillStr =
            (if gradientSet E then Some ''url(#qrGradient)''
             else if i = 1 \<and> j = 1 then Some (hexRGB (translateToRGBA E v))
             else if halftoneX < halftoneImgWidth \<and> halftoneY < halftoneImgHeight then
               (case halftoneGray E halftoneX halftoneY of
                  Some g \<Rightarrow> (if g = 0 then Some (hexRGB (translateToRGBA E v)) else None)
                | None \<Rightarrow> None)
             else None)
      in case fillStr of
           None \<Rightarrow> []
         | Some fs \<Rightarrow>
            (let subX = blockX + trunc (of_int i * halftoneW);
                 subY = blockY + trunc (of_int j * halftoneW);
                 rectSize = halftoneW * (9 / 10);
                 cx = of_int subX + (halftoneW - rectSize) / 2;
                 cy = of_int subY + (halftoneW - rectSize) / 2
             in [''<g fill='' @ dq @ fs @ dq @ ''><rect x='' @ dq @ F cx @ dq @
                 '' y='' @ dq @ F cy @ dq @ '' width='' @ dq @ F rectSize @ dq @
                 '' height='' @ dq @ F rectSize @ dq @ ''/></g>'']))"

definition legacy_module :: "fmtf \<Rightarrow> renderEnv \<Rightarrow> int \<Rightarrow> int \<Rightarrow> QRValue \<Rightarrow> string list" where
  "legacy_module F E mx my v =
     (if \<not> IsSet v then []
      else if overlapsLogo E mx my then []
      else if hasHalftone E \<and> QType v = QRType_DATA then
        concat (map (\<lambda>i. concat (map (\<lambda>j. legacy_subcell F E mx my v i j) [0, 1, 2])) [0, 1, 2])
      else svgEncoder_normal E mx my v)"

text \<open>
  \<^verbatim>\<open>SvgoEncoder.EncodeMatrix\<close>: the callback's output is its calls of
  \<^verbatim>\<open>drawBlockWithSvgo\<close>, each with a context, a module type and a fill string.
\<close>

definition Svgo_subcell ::
  "renderEnv \<Rightarrow> int \<Rightarrow> int \<Rightarrow> QRValue \<Rightarrow> int \<Rightarrow> int \<Rightarrow> (DrawContext \<times> QRType \<times> string) list" where
  "Svgo_subcell E mx my v i j =
     (let blockX = mx * qrBlockWidth E + borderWidths E ! 3;
          blockY = my * qrBlockWidth E + borderWidths E ! 0;
          halftoneW = of_int (qrBlockWidth E) / 3;
          subX = blockX + trunc (of_int i * halftoneW);
          subY = blockY + trunc (of_int j * halftoneW);
          fillStr =
            (if i = 1 \<and> j = 1 then
               Some (if gradientSet E then ''url(#qrGradient)'' else hexRGB (translateToRGBA E v))
             else
               (let c = halftoneColor E (mx * 3 + i) (my * 3 + j)
                in if alpha c = 0 then None else Some (hexRGB c)))
      in case fillStr of
           None \<Rightarrow> []
         | Some fs \<Rightarrow>
             [(\<lparr>dc_x = of_int subX, dc_y = of_int subY, dc_w = trunc halftoneW,
                dc_h = trunc halftoneW, dc_color = Black, dc_neighbours = 0\<rparr>,
               QRType_DATA, fs)])"

definition Svgo_overlapsLogo :: "renderEnv \<Rightarrow> int \<Rightarrow> int \<Rightarrow> bool" where
  "Svgo_overlapsLogo E blockX blockY =
     (logoPresent E \<and> logoSafeZone E \<and>
      (let logoX = quo (canvasWidth E - logoWidth E) 2;
           logoY = quo (canvasHeight E - logoHeight E) 2;
           safeZone = qrBlockWidth E * 2
       in (of_int blockX :: real) \<ge> of_int logoX - of_int safeZone \<and>
          (of_int blockX :: real) < of_int (logoX + logoWidth E) + of_int safeZone \<and>
          (of_int blockY :: real) \<ge> of_int logoY - of_int safeZone \<and>
          (of_int blockY :: real) < of_int (logoY + logoHeight E) + of_int safeZone))"

definition Svgo_module ::
  "renderEnv \<Rightarrow> int \<Rightarrow> int \<Rightarrow> QRValue \<Rightarrow> (DrawContext \<times> QRType \<times> string) list" where
  "Svgo_module E mx my v =
     (if \<not> IsSet v then []
      else
        (let blockX = mx * qrBlockWidth E + borderWidths E ! 3;
             blockY = my * qrBlockWidth E + borderWidths E ! 0
         in if Svgo_overlapsLogo E blockX blockY then []
            else if hasHalftone E \<and> QType v \<noteq> QRType_FINDER then
              concat (map (\<lambda>i. concat (map (\<lambda>j. Svgo_subcell E mx my v i j) [0, 1, 2])) [0, 1, 2])
            else
              (let fillColor = (if gradientSet E then ''url(#qrGradient)''
                                else hexRGB (translateToRGBA E v))
               in [(\<lparr>dc_x = of_int blockX, dc_y = of_int blockY, dc_w = qrBlockWidth E,
                      dc_h = qrBlockWidth E, dc_color = Black,
                      dc_neighbours = getNeighbours E mx my\<rparr>,
                    QType v, fillColor)])))"

text \<open>
  The background rule written out in the halftone loop and in the rectangle decomposition:
  alpha 0, or red, green and blue all 255, on the 8-bit channels.
\<close>

definition elided :: "color \<Rightarrow> bool" where
  "elided c =
     (shr8 (alpha c) = 0 \<or> (shr8 (red c) = 255 \<and> shr8 (green c) = 255 \<and> shr8 (blue c) = 255))"

text \<open>The colour the second revision's halftone loop picks for sub-cell \<open>(i, j)\<close>.\<close>

definition svgEncoder_subcolor :: "renderEnv \<Rightarrow> int \<Rightarrow> int \<Rightarrow> QRValue \<Rightarrow> int \<Rightarrow> int \<Rightarrow> color" where
  "svgEncoder_subcolor E mx my v i j =
     (if i = 1 \<and> j = 1 then translateToRGBA E v else halftoneColor E (mx * 3 + i) (my * 3 + j))"

text \<open>The two halftone loops of \<^verbatim>\<open>SvgoEncoder.EncodeMatrix\<close> for one module.\<close>

definition Svgo_halftone ::
  "renderEnv \<Rightarrow> int \<Rightarrow> int \<Rightarrow> QRValue \<Rightarrow> (DrawContext \<times> QRType \<times> string) list" where
  "Svgo_halftone E mx my v =
     concat (map (\<lambda>i. concat (map (\<lambda>j. Svgo_subcell E mx my v i j) [0, 1, 2])) [0, 1, 2])"

text \<open>
  The sub-cells \<^verbatim>\<open>SvgoEncoder\<close> leaves out: those other than the centre whose halftone
  sample has alpha 0 (on the 16-bit channel). The fill of the others: the centre takes the
  gradient reference or the module's resolved colour, the rest their halftone sample.
\<close>

definition Svgo_elided :: "renderEnv \<Rightarrow> int \<Rightarrow> int \<Rightarrow> int \<Rightarrow> int \<Rightarrow> bool" where
  "Svgo_elided E mx my i j =
     (\<not> (i = 1 \<and> j = 1) \<and> alpha (halftoneColor E (mx * 3 + i) (my * 3 + j)) = 0)"

definition Svgo_fill :: "renderEnv \<Rightarrow> int \<Rightarrow> int \<Rightarrow> QRValue \<Rightarrow> int \<Rightarrow> int \<Rightarrow> string" where
  "Svgo_fill E mx my v i j =
     (if i = 1 \<and> j = 1
      then (if gradientSet E then ''url(#qrGradient)'' else hexRGB (translateToRGBA E v))
      else hexRGB (halftoneColor E (mx * 3 + i) (my * 3 + j)))"

text \<open>
  A configuration for concrete evaluation: 21 by 21 modules of 9 pixels without border,
  logo or gradient, a halftone source whose samples are \<open>hc\<close>, set modules black and
  unset modules white, and a shape that prints \<^verbatim>\<open><rect/>\<close>.
\<close>

definition sampleEnv :: "(int \<Rightarrow> int \<Rightarrow> color) \<Rightarrow> renderEnv" where
  "sampleEnv hc =
     \<lparr>qrBlockWidth = 9, borderWidths = [0, 0, 0, 0], gradientSet = False,
      logoPresent = False, logoValid = False, logoSafeZone = False,
      logoWidth = 0, logoHeight = 0, canvasWidth = 189, canvasHeight = 189,
      matWidth = 21, hasHalftone = True,
      translateToRGBA = (\<lambda>v. if IsSet v then Black else White),
      halftoneColor = hc,
      halftoneGray = (\<lambda>px py. Some 255),
      blockOverlapsLogo = (\<lambda>a b c d e f g h i. False),
      getNeighbours = (\<lambda>px py. 0),
      GenerateSVGPath = (\<lambda>c g. ''<rect/>''),
      GenerateSVGFinder = (\<lambda>c g. ''<rect/>'')\<rparr>"

section \<open>The gradient projector\<close>





section \<open>The halftone preprocessor\<close>

text \<open>\<^verbatim>\<open>color.GrayModel.Convert\<close>, on \<^verbatim>\<open>uint32\<close>, and the \<^verbatim>\<open>Y\<close> of its result.\<close>

definition grayModel :: "color \<Rightarrow> 8 word" where
  "grayModel c =
     ucast (drop_bit 24 (19595 * red c + 38470 * green c + 7471 * blue c + push_bit 15 1))"

definition SetGray :: "GrayImage \<Rightarrow> int \<Rightarrow> int \<Rightarrow> 8 word \<Rightarrow> GrayImage" where
  "SetGray g px py yv =
     (if \<not> PointIn px py (GrayRect g) then g
      else g\<lparr>GrayPix := (GrayPix g)((px, py) := yv)\<rparr>)"

definition GraySet :: "GrayImage \<Rightarrow> int \<Rightarrow> int \<Rightarrow> color \<Rightarrow> GrayImage" where
  "GraySet g px py c =
     (if \<not> PointIn px py (GrayRect g) then g
      else g\<lparr>GrayPix := (GrayPix g)((px, py) := grayModel c)\<rparr>)"

text \<open>The \<^verbatim>\<open>Y\<close> of \<^verbatim>\<open>gray.At(x, y).(color.Gray)\<close>.\<close>

definition GrayAt :: "GrayImage \<Rightarrow> int \<Rightarrow> int \<Rightarrow> 8 word" where
  "GrayAt g px py = (if \<not> PointIn px py (GrayRect g) then 0 else GrayPix g (px, py))"

text \<open>
  \<^verbatim>\<open>Gray\<close> (imgkit): the loops run \<open>i\<close> over \<open>0 .. height - 1\<close> and \<open>j\<close> over
  \<open>0 .. width - 1\<close> and use \<open>(j, i)\<close> as the pixel's coordinates.
\<close>

definition Gray :: "Image \<Rightarrow> GrayImage" where
  "Gray src =
     (let bounds = Bounds src;
          height = Max_Y bounds - Min_Y bounds;
          width = Max_X bounds - Min_X bounds;
          gray = NewGray bounds
      in foldl (\<lambda>g i. foldl (\<lambda>g j. SetGray g j i (grayModel (At src j i))) g [0 .. width - 1])
           gray [0 .. height - 1])"

text \<open>
  \<^verbatim>\<open>draw.Draw(dst, r, src, r.Min, draw.Src)\<close> of the library, for a destination of
  rectangle \<open>r\<close>: every pixel of \<open>r\<close> becomes the source's colour there, converted by
  \<^verbatim>\<open>color.RGBAModel\<close>.
\<close>

definition draw_Src :: "RGBAImage \<Rightarrow> Rectangle \<Rightarrow> Image \<Rightarrow> RGBAImage" where
  "draw_Src dst r src =
     dst\<lparr>RGBAPix := (\<lambda>p. if PointIn (fst p) (snd p) r \<and> PointIn (fst p) (snd p) (RGBARect dst)
                           then (let c = At src (fst p) (snd p)
                                 in (shr8 (red c), shr8 (green c), shr8 (blue c), shr8 (alpha c)))
                           else RGBAPix dst p)\<rparr>"

datatype BinaryImage = RGBAResult RGBAImage | GrayResult GrayImage

text \<open>\<^verbatim>\<open>Binaryzation\<close>; \<^verbatim>\<open>color.White\<close> and \<^verbatim>\<open>color.Black\<close> are the constants above.\<close>

definition Binaryzation :: "Image \<Rightarrow> 8 word \<Rightarrow> bool \<Rightarrow> BinaryImage" where
  "Binaryzation src threshold0 useOriginalColors =
     (let threshold = (if threshold0 < 0 \<or> threshold0 > 255 then 128 else threshold0);
          bounds = Bounds src;
          height = Max_Y bounds - Min_Y bounds;
          width = Max_X bounds - Min_X bounds
      in if useOriginalColors then RGBAResult (draw_Src (NewRGBA bounds) bounds src)
         else GrayResult
           (foldl (\<lambda>g i. foldl (\<lambda>g j. if GrayAt g j i > threshold then GraySet g j i White
                                          else GraySet g j i Black) g [0 .. width - 1])
              (Gray src) [0 .. height - 1]))"

text \<open>A one-pixel white image whose rectangle does not start at the origin.\<close>

definition shiftedImage :: Image where
  "shiftedImage = \<lparr>Bounds = Rect 1 0 2 1, At = (\<lambda>px py. White)\<rparr>"

text \<open>A uniform image of the given colour on the rectangle from the origin to \<open>(w, h)\<close>.\<close>

definition uniformImage :: "int \<Rightarrow> int \<Rightarrow> color \<Rightarrow> Image" where
  "uniformImage w h c = \<lparr>Bounds = Rect 0 0 w h, At = (\<lambda>px py. c)\<rparr>"

section \<open>The rectangle decomposition engine\<close>

text \<open>
  \<^verbatim>\<open>rectInfo\<close>, its fields prefixed. A pixel as the algorithms compare it: the four
  channels reduced to \<^verbatim>\<open>uint8\<close>.
\<close>

type_synonym pixel8 = "8 word \<times> 8 word \<times> 8 word \<times> 8 word"

record rectInfo =
  ri_x :: int
  ri_y :: int
  ri_width :: int
  ri_height :: int
  ri_r :: "8 word"
  ri_g :: "8 word"
  ri_b :: "8 word"
  ri_a :: "8 word"

definition mkRect :: "int \<Rightarrow> int \<Rightarrow> int \<Rightarrow> int \<Rightarrow> pixel8 \<Rightarrow> rectInfo" where
  "mkRect px py w h c =
     (case c of (r, g, b, a) \<Rightarrow>
        \<lparr>ri_x = px, ri_y = py, ri_width = w, ri_height = h,
         ri_r = r, ri_g = g, ri_b = b, ri_a = a\<rparr>)"

text \<open>
  \<^verbatim>\<open>getPixel\<close>: \<^verbatim>\<open>img.At(x, y).RGBA()\<close>, each channel shifted right by 8. (For an
  \<^verbatim>\<open>*image.RGBA\<close> the source reads the same four bytes directly from \<^verbatim>\<open>Pix\<close>; the
  two agree on every pixel inside the image's rectangle, which is where the callers'
  bounds lie.)
\<close>

definition getPixel :: "Image \<Rightarrow> int \<Rightarrow> int \<Rightarrow> pixel8" where
  "getPixel img px py =
     (let c = At img px py in (shr8 (red c), shr8 (green c), shr8 (blue c), shr8 (alpha c)))"

text \<open>The test \<^verbatim>\<open>a == 0 || (r == 255 && g == 255 && b == 255)\<close>.\<close>

definition background :: "pixel8 \<Rightarrow> bool" where
  "background c = (case c of (r, g, b, a) \<Rightarrow> a = 0 \<or> (r = 255 \<and> g = 255 \<and> b = 255))"

definition Dx :: "Rectangle \<Rightarrow> int" where
  "Dx b = Max_X b - Min_X b"

definition Dy :: "Rectangle \<Rightarrow> int" where
  "Dy b = Max_Y b - Min_Y b"

definition getIndex :: "Rectangle \<Rightarrow> int \<Rightarrow> int \<Rightarrow> int" where
  "getIndex b px py = (py - Min_Y b) * Dx b + (px - Min_X b)"

text \<open>
  Reading and setting \<^verbatim>\<open>visited[i]\<close>: an index outside the slice panics, which is
  \<open>None\<close>. A counted loop whose body may panic is \<open>forEach\<close>.
\<close>

definition readAt :: "bool list \<Rightarrow> int \<Rightarrow> bool option" where
  "readAt vis i = (if 0 \<le> i \<and> i < int (length vis) then Some (vis ! nat i) else None)"

definition writeAt :: "bool list \<Rightarrow> int \<Rightarrow> bool list option" where
  "writeAt vis i = (if 0 \<le> i \<and> i < int (length vis) then Some (vis[nat i := True]) else None)"

primrec forEach :: "'k list \<Rightarrow> ('s \<Rightarrow> 'k \<Rightarrow> 's option) \<Rightarrow> 's \<Rightarrow> 's option" where
  "forEach [] f s = Some s"
| "forEach (k # ks) f s = (case f s k of None \<Rightarrow> None | Some s' \<Rightarrow> forEach ks f s')"

definition isVisited :: "Rectangle \<Rightarrow> bool list \<Rightarrow> int \<Rightarrow> int \<Rightarrow> bool option" where
  "isVisited b vis px py = readAt vis ((py - Min_Y b) * Dx b + (px - Min_X b))"

definition markVisited :: "Rectangle \<Rightarrow> bool list \<Rightarrow> int \<Rightarrow> int \<Rightarrow> int \<Rightarrow> int \<Rightarrow> bool list option" where
  "markVisited b vis px py w h =
     (let startY = py - Min_Y b;
          startX = px - Min_X b
      in forEach [0 .. h - 1]
           (\<lambda>v dy. let offset = (startY + dy) * Dx b
                    in forEach [0 .. w - 1] (\<lambda>v dx. writeAt v (offset + startX + dx)) v)
           vis)"

text \<open>Greedy horizontal expansion: the loop \<^verbatim>\<open>for x+w < bounds.Max.X\<close>.\<close>

function expandW ::
  "Image \<Rightarrow> Rectangle \<Rightarrow> bool list \<Rightarrow> pixel8 \<Rightarrow> int \<Rightarrow> int \<Rightarrow> int \<Rightarrow> int option" where
  "expandW img b vis c px py w =
     (if px + w < Max_X b then
        (case isVisited b vis (px + w) py of
           None \<Rightarrow> None
         | Some v \<Rightarrow>
             if v then Some w
             else if getPixel img (px + w) py \<noteq> c then Some w
             else expandW img b vis c px py (w + 1))
      else Some w)"
  by pat_completeness auto
termination
  by (relation "measure (\<lambda>(img, b, vis, c, px, py, w). nat (Max_X b - (px + w)))") auto

text \<open>The loop over \<open>k\<close> that sets \<^verbatim>\<open>matchRow\<close>, for the row \<open>py + h\<close>.\<close>

function matchRow ::
  "Image \<Rightarrow> Rectangle \<Rightarrow> bool list \<Rightarrow> pixel8 \<Rightarrow> int \<Rightarrow> int \<Rightarrow> int \<Rightarrow> int \<Rightarrow> int \<Rightarrow> bool option" where
  "matchRow img b vis c px py h w k =
     (if k < w then
        (case isVisited b vis (px + k) (py + h) of
           None \<Rightarrow> None
         | Some v \<Rightarrow>
             if v then Some False
             else if getPixel img (px + k) (py + h) \<noteq> c then Some False
             else matchRow img b vis c px py h w (k + 1))
      else Some True)"
  by pat_completeness auto
termination
  by (relation "measure (\<lambda>(img, b, vis, c, px, py, h, w, k). nat (w - k))") auto

text \<open>Greedy vertical expansion: the loop \<^verbatim>\<open>for y+h < bounds.Max.Y\<close>.\<close>

function expandH ::
  "Image \<Rightarrow> Rectangle \<Rightarrow> bool list \<Rightarrow> pixel8 \<Rightarrow> int \<Rightarrow> int \<Rightarrow> int \<Rightarrow> int \<Rightarrow> int option" where
  "expandH img b vis c px py w h =
     (if py + h < Max_Y b then
        (case matchRow img b vis c px py h w 0 of
           None \<Rightarrow> None
         | Some m \<Rightarrow> if \<not> m then Some h else expandH img b vis c px py w (h + 1))
      else Some h)"
  by pat_completeness auto
termination
  by (relation "measure (\<lambda>(img, b, vis, c, px, py, w, h). nat (Max_Y b - (py + h)))") auto

text \<open>The body of the two scanning loops, on the state \<^verbatim>\<open>(visited, rects)\<close>.\<close>

definition greedyStep ::
  "Image \<Rightarrow> Rectangle \<Rightarrow> bool list \<times> rectInfo list \<Rightarrow> int \<Rightarrow> int \<Rightarrow>
   (bool list \<times> rectInfo list) option" where
  "greedyStep img b st px py =
     (case isVisited b (fst st) px py of
        None \<Rightarrow> None
      | Some v \<Rightarrow>
          if v then Some st
          else
            (let c = getPixel img px py
             in if background c then Some st
                else
                  (case expandW img b (fst st) c px py 1 of
                     None \<Rightarrow> None
                   | Some w \<Rightarrow>
                      (case expandH img b (fst st) c px py w 1 of
                         None \<Rightarrow> None
                       | Some h \<Rightarrow>
                          (case markVisited b (fst st) px py w h of
                             None \<Rightarrow> None
                           | Some vis' \<Rightarrow> Some (vis', snd st @ [mkRect px py w h c]))))))"

text \<open>
  \<^verbatim>\<open>optimizeRectangles\<close> (greedy meshing). \<^verbatim>\<open>make([]bool, width*height)\<close> panics on a
  negative length.
\<close>

definition optimizeRectangles :: "Image \<Rightarrow> Rectangle \<Rightarrow> rectInfo list option" where
  "optimizeRectangles img b =
     (let width = Dx b; height = Dy b
      in if width * height < 0 then None
         else
           map_option snd
             (forEach [Min_Y b .. Max_Y b - 1]
                (\<lambda>st py. forEach [Min_X b .. Max_X b - 1] (\<lambda>st px. greedyStep img b st px py) st)
                (replicate (nat (width * height)) False, [])))"

text \<open>
  What a list of rectangles covers, and what repainting it on a blank canvas gives
  (\<open>None\<close> is a pixel left blank).
\<close>

definition ri_color :: "rectInfo \<Rightarrow> pixel8" where
  "ri_color r = (ri_r r, ri_g r, ri_b r, ri_a r)"

definition covers :: "rectInfo \<Rightarrow> int \<Rightarrow> int \<Rightarrow> bool" where
  "covers r px py =
     (ri_x r \<le> px \<and> px < ri_x r + ri_width r \<and> ri_y r \<le> py \<and> py < ri_y r + ri_height r)"

definition paintRect :: "(int \<times> int \<Rightarrow> pixel8 option) \<Rightarrow> rectInfo \<Rightarrow> (int \<times> int \<Rightarrow> pixel8 option)" where
  "paintRect canvas r = (\<lambda>p. if covers r (fst p) (snd p) then Some (ri_color r) else canvas p)"

definition repaint :: "rectInfo list \<Rightarrow> (int \<times> int \<Rightarrow> pixel8 option)" where
  "repaint rs = foldl paintRect (\<lambda>p. None) rs"

text \<open>
  The facts the scanning loops maintain. A recorded rectangle lies inside the
  bounds, is at least one pixel wide and high, has a colour that is not background, and
  every pixel it covers has that colour. The visited flags are exactly the pixels
  covered so far; the pixels of \<open>S\<close> (those already scanned) that are not background are
  visited.
\<close>

definition rectOK :: "Image \<Rightarrow> Rectangle \<Rightarrow> rectInfo \<Rightarrow> bool" where
  "rectOK img b r =
     (Min_X b \<le> ri_x r \<and> ri_x r + ri_width r \<le> Max_X b \<and>
      Min_Y b \<le> ri_y r \<and> ri_y r + ri_height r \<le> Max_Y b \<and>
      1 \<le> ri_width r \<and> 1 \<le> ri_height r \<and> \<not> background (ri_color r) \<and>
      (\<forall>px py. covers r px py \<longrightarrow> getPixel img px py = ri_color r))"

definition flagged :: "Rectangle \<Rightarrow> bool list \<Rightarrow> int \<Rightarrow> int \<Rightarrow> bool" where
  "flagged b vis px py = vis ! nat (getIndex b px py)"

definition disjointRects :: "rectInfo list \<Rightarrow> bool" where
  "disjointRects rs =
     (\<forall>i j px py. i < j \<and> j < length rs \<and> covers (rs ! i) px py \<longrightarrow> \<not> covers (rs ! j) px py)"

definition greedyInv ::
  "Image \<Rightarrow> Rectangle \<Rightarrow> (int \<times> int) set \<Rightarrow> bool list \<times> rectInfo list \<Rightarrow> bool" where
  "greedyInv img b S st =
     (length (fst st) = nat (Dx b * Dy b) \<and>
      (\<forall>px py. PointIn px py b \<longrightarrow> flagged b (fst st) px py = (\<exists>r \<in> set (snd st). covers r px py)) \<and>
      (\<forall>r \<in> set (snd st). rectOK img b r) \<and>
      disjointRects (snd st) \<and>
      (\<forall>p \<in> S. PointIn (fst p) (snd p) b \<longrightarrow> \<not> background (getPixel img (fst p) (snd p)) \<longrightarrow>
         flagged b (fst st) (fst p) (snd p)))"

text \<open>
  An image for concrete evaluation, 4 by 3 pixels: the two left columns black, the
  two right columns red except for the white middle row.
\<close>

definition sampleImage :: Image where
  "sampleImage =
     \<lparr>Bounds = Rect 0 0 4 3,
      At = (\<lambda>px py. if px < 2 then Black
                     else if py = 1 then White
                     else \<lparr>red = 0xffff, green = 0, blue = 0, alpha = 0xffff\<rparr>)\<rparr>"

subsection \<open>The four-phase decomposition\<close>

text \<open>
  A loop \<^verbatim>\<open>for i := lo; i <= hi; i += 3\<close> whose body may panic.
\<close>

function forStep3 :: "int \<Rightarrow> int \<Rightarrow> ('s \<Rightarrow> int \<Rightarrow> 's option) \<Rightarrow> 's \<Rightarrow> 's option" where
  "forStep3 i hi f s =
     (if i \<le> hi then (case f s i of None \<Rightarrow> None | Some s' \<Rightarrow> forStep3 (i + 3) hi f s')
      else Some s)"
  by pat_completeness auto
termination
  by (relation "measure (\<lambda>(i, hi, f, s). nat (hi + 1 - i))") auto

text \<open>
  Phase 1. The two loops that set \<^verbatim>\<open>isUniform\<close> visit the offsets \<open>(dx, dy)\<close> row by
  row and stop at the first cell that is visited or of another colour.
\<close>

definition block3 :: "(int \<times> int) list" where
  "block3 = concat (map (\<lambda>dy. map (\<lambda>dx. (dx, dy)) [0, 1, 2]) [0, 1, 2])"

fun uniformCells ::
  "Image \<Rightarrow> Rectangle \<Rightarrow> bool list \<Rightarrow> pixel8 \<Rightarrow> int \<Rightarrow> int \<Rightarrow> (int \<times> int) list \<Rightarrow> bool option" where
  "uniformCells img b vis c px py [] = Some True"
| "uniformCells img b vis c px py (d # ds) =
     (case readAt vis (getIndex b (px + fst d) (py + snd d)) of
        None \<Rightarrow> None
      | Some v \<Rightarrow>
          if v then Some False
          else if getPixel img (px + fst d) (py + snd d) \<noteq> c then Some False
          else uniformCells img b vis c px py ds)"

definition markBlock :: "Rectangle \<Rightarrow> bool list \<Rightarrow> int \<Rightarrow> int \<Rightarrow> bool list option" where
  "markBlock b vis px py =
     forEach [0 .. 2]
       (\<lambda>v dy. forEach [0 .. 2] (\<lambda>v dx. writeAt v (getIndex b (px + dx) (py + dy))) v) vis"

definition phase1Step ::
  "Image \<Rightarrow> Rectangle \<Rightarrow> bool list \<times> rectInfo list \<Rightarrow> int \<Rightarrow> int \<Rightarrow>
   (bool list \<times> rectInfo list) option" where
  "phase1Step img b st px py =
     (let c = getPixel img px py
      in if background c then Some st
         else
           (case uniformCells img b (fst st) c px py block3 of
              None \<Rightarrow> None
            | Some isUniform \<Rightarrow>
                if isUniform then
                  (case markBlock b (fst st) px py of
                     None \<Rightarrow> None
                   | Some vis' \<Rightarrow> Some (vis', snd st @ [mkRect px py 3 3 c]))
                else Some st))"

definition phase1 ::
  "Image \<Rightarrow> Rectangle \<Rightarrow> bool list \<times> rectInfo list \<Rightarrow> (bool list \<times> rectInfo list) option" where
  "phase1 img b st =
     forStep3 (Min_Y b) (Max_Y b - 3)
       (\<lambda>st py. forStep3 (Min_X b) (Max_X b - 3) (\<lambda>st px. phase1Step img b st px py) st) st"

text \<open>
  Phase 2. The inner loop that extends a run from \<open>px\<close>; it returns the first \<open>x\<close>
  that is at the right edge, visited or of another colour.
\<close>

function runEnd :: "Image \<Rightarrow> Rectangle \<Rightarrow> bool list \<Rightarrow> pixel8 \<Rightarrow> int \<Rightarrow> int \<Rightarrow> int option" where
  "runEnd img b vis c py px =
     (if px < Max_X b then
        (case readAt vis (getIndex b px py) of
           None \<Rightarrow> None
         | Some v \<Rightarrow>
             if v then Some px
             else if getPixel img px py \<noteq> c then Some px
             else runEnd img b vis c py (px + 1))
      else Some px)"
  by pat_completeness auto
termination
  by (relation "measure (\<lambda>(img, b, vis, c, py, px). nat (Max_X b - px))") auto

declare runEnd.simps [simp del]

lemma runEnd_ge: "runEnd img b vis c py px = Some qx \<Longrightarrow> px \<le> qx"
proof (induction img b vis c py px rule: runEnd.induct)
  case (1 img b vis c py px)
  show ?case
  proof (cases "px < Max_X b")
    case False
    with "1.prems" show ?thesis
      by (subst (asm) runEnd.simps) simp
  next
    case True
    show ?thesis
    proof (cases "readAt vis (getIndex b px py)")
      case None
      with True "1.prems" show ?thesis
        by (subst (asm) runEnd.simps) simp
    next
      case (Some v)
      show ?thesis
      proof (cases "v \<or> getPixel img px py \<noteq> c")
        case True
        with \<open>px < Max_X b\<close> Some "1.prems" show ?thesis
          by (subst (asm) runEnd.simps) (auto split: if_splits)
      next
        case False
        then have nv: "\<not> v" and nc: "\<not> getPixel img px py \<noteq> c"
          by simp_all
        from \<open>px < Max_X b\<close> Some False "1.prems"
        have "runEnd img b vis c py (px + 1) = Some qx"
          by (subst (asm) runEnd.simps) simp
        from "1.IH" [OF \<open>px < Max_X b\<close> Some nv nc this] show ?thesis
          by simp
      qed
    qed
  qed
qed

text \<open>The loop \<^verbatim>\<open>for x < bounds.Max.X\<close> over one row, on the list of rectangles.\<close>

function rowScan ::
  "Image \<Rightarrow> Rectangle \<Rightarrow> bool list \<Rightarrow> int \<Rightarrow> int \<Rightarrow> rectInfo list \<Rightarrow> rectInfo list option" where
  "rowScan img b vis py px rects =
     (if px < Max_X b then
        (case readAt vis (getIndex b px py) of
           None \<Rightarrow> None
         | Some v \<Rightarrow>
             if v then rowScan img b vis py (px + 1) rects
             else
               (let c = getPixel img px py
                in if background c then rowScan img b vis py (px + 1) rects
                   else
                     (case runEnd img b vis c py (px + 1) of
                        None \<Rightarrow> None
                      | Some qx \<Rightarrow>
                          rowScan img b vis py qx (rects @ [mkRect px py (qx - px) 1 c]))))
      else Some rects)"
  by pat_completeness auto
termination
proof (relation "measure (\<lambda>(img, b, vis, py, px, rects). nat (Max_X b - px))", goal_cases)
  case 1
  show ?case by simp
next
  case 2
  then show ?case by simp
next
  case 3
  then show ?case by simp
next
  case (4 img b vis py px rects v c qx)
  then have "runEnd img b vis c py (px + 1) = Some qx"
    by simp
  from runEnd_ge [OF this] 4 show ?case
    by simp
qed

text \<open>
  Phases 3 and 4. \<^verbatim>\<open>sort.Slice\<close> is the library's sort, which is not stable: it is the
  parameter \<open>sortSlice\<close>, applied to the comparison function and the list. The merge
  loops keep \<^verbatim>\<open>curr\<close> (here \<open>cur\<close>), the rest of the sorted list and the output so far.
\<close>

definition lessYX :: "rectInfo \<Rightarrow> rectInfo \<Rightarrow> bool" where
  "lessYX r s = (if ri_y r \<noteq> ri_y s then ri_y r < ri_y s else ri_x r < ri_x s)"

definition lessXY :: "rectInfo \<Rightarrow> rectInfo \<Rightarrow> bool" where
  "lessXY r s = (if ri_x r \<noteq> ri_x s then ri_x r < ri_x s else ri_y r < ri_y s)"

fun mergeHorz :: "rectInfo \<Rightarrow> rectInfo list \<Rightarrow> rectInfo list \<Rightarrow> rectInfo list" where
  "mergeHorz cur [] acc = acc @ [cur]"
| "mergeHorz cur (nxt # rest) acc =
     (if ri_y cur = ri_y nxt \<and> ri_height cur = ri_height nxt \<and>
         ri_x cur + ri_width cur = ri_x nxt \<and>
         ri_r cur = ri_r nxt \<and> ri_g cur = ri_g nxt \<and> ri_b cur = ri_b nxt \<and>
         ri_a cur = ri_a nxt
      then mergeHorz (cur\<lparr>ri_width := ri_width cur + ri_width nxt\<rparr>) rest acc
      else mergeHorz nxt rest (acc @ [cur]))"

fun mergeVert :: "rectInfo \<Rightarrow> rectInfo list \<Rightarrow> rectInfo list \<Rightarrow> rectInfo list" where
  "mergeVert cur [] acc = acc @ [cur]"
| "mergeVert cur (nxt # rest) acc =
     (if ri_x cur = ri_x nxt \<and> ri_width cur = ri_width nxt \<and>
         ri_y cur + ri_height cur = ri_y nxt \<and>
         ri_r cur = ri_r nxt \<and> ri_g cur = ri_g nxt \<and> ri_b cur = ri_b nxt \<and>
         ri_a cur = ri_a nxt
      then mergeVert (cur\<lparr>ri_height := ri_height cur + ri_height nxt\<rparr>) rest acc
      else mergeVert nxt rest (acc @ [cur]))"

text \<open>\<^verbatim>\<open>oldOptimizeRectangles\<close>; reading element 0 of an empty slice panics.\<close>

definition oldOptimizeRectangles ::
  "((rectInfo \<Rightarrow> rectInfo \<Rightarrow> bool) \<Rightarrow> rectInfo list \<Rightarrow> rectInfo list) \<Rightarrow>
   Image \<Rightarrow> Rectangle \<Rightarrow> rectInfo list option" where
  "oldOptimizeRectangles sortSlice img b =
     (let width = Dx b; height = Dy b
      in if width * height < 0 then None
         else
           (case phase1 img b (replicate (nat (width * height)) False, []) of
              None \<Rightarrow> None
            | Some st \<Rightarrow>
               (case forEach [Min_Y b .. Max_Y b - 1]
                       (\<lambda>rects py. rowScan img b (fst st) py (Min_X b) rects) (snd st) of
                  None \<Rightarrow> None
                | Some rects \<Rightarrow>
                    if length rects = 0 then Some rects
                    else
                      (case sortSlice lessYX rects of
                         [] \<Rightarrow> None
                       | cur # rest \<Rightarrow>
                          (let mergedHorz = mergeHorz cur rest []
                           in case sortSlice lessXY mergedHorz of
                                [] \<Rightarrow> Some []
                              | cur2 # rest2 \<Rightarrow> Some (mergeVert cur2 rest2 []))))))"

text \<open>An insertion sort, to stand for \<^verbatim>\<open>sort.Slice\<close> in concrete evaluation.\<close>

fun insertBy :: "('a \<Rightarrow> 'a \<Rightarrow> bool) \<Rightarrow> 'a \<Rightarrow> 'a list \<Rightarrow> 'a list" where
  "insertBy lt e [] = [e]"
| "insertBy lt e (d # ds) = (if lt e d then e # d # ds else d # insertBy lt e ds)"

definition insertionSort :: "('a \<Rightarrow> 'a \<Rightarrow> bool) \<Rightarrow> 'a list \<Rightarrow> 'a list" where
  "insertionSort lt es = foldr (insertBy lt) es []"

text \<open>A 2 by 2 image, black except for the white pixel \<open>(1, 0)\<close>.\<close>

definition cornerImage :: Image where
  "cornerImage =
     \<lparr>Bounds = Rect 0 0 2 2, At = (\<lambda>px py. if px = 1 \<and> py = 0 then White else Black)\<rparr>"

text \<open>
  The facts the first two phases maintain: the rectangles are as for the greedy scan;
  every visited pixel is covered; every pixel of \<open>C\<close> that is not background is covered.
\<close>

definition oldInv ::
  "Image \<Rightarrow> Rectangle \<Rightarrow> bool list \<Rightarrow> (int \<times> int) set \<Rightarrow> rectInfo list \<Rightarrow> bool" where
  "oldInv img b vis C rects =
     (length vis = nat (Dx b * Dy b) \<and>
      (\<forall>r \<in> set rects. rectOK img b r) \<and>
      (\<forall>px py. PointIn px py b \<longrightarrow> flagged b vis px py \<longrightarrow> (\<exists>r \<in> set rects. covers r px py)) \<and>
      (\<forall>p \<in> C. PointIn (fst p) (snd p) b \<longrightarrow> \<not> background (getPixel img (fst p) (snd p)) \<longrightarrow>
         (\<exists>r \<in> set rects. covers r (fst p) (snd p))))"

section \<open>Properties\<close>

lemma quo_two: "quo a 2 = (if 0 \<le> a then a div 2 else - ((- a) div 2))"
  by (simp add: quo_def sgn_if)

lemma quo_two_mono: "a \<le> b \<Longrightarrow> quo a 2 \<le> quo b 2"
  unfolding quo_two by (simp split: if_splits) linarith

lemma quo_two_min: "(if quo b 2 \<le> quo a 2 then quo b 2 else quo a 2) = quo (min a b) 2"
proof (cases "a \<le> b")
  case True
  from quo_two_mono [OF True] show ?thesis using True by (simp add: min_def)
next
  case False
  then have "b \<le> a" by simp
  from quo_two_mono [OF this] show ?thesis using False by (simp add: min_def)
qed

lemma circle_Draw_eq:
  "circle_Draw c =
     [CallDrawCircle (dc_x c + of_int (dc_w c) / 2) (dc_y c + of_int (dc_h c) / 2)
        (of_int (quo (min (dc_w c) (dc_h c)) 2)),
      CallSetColor (dc_color c),
      CallFill]"
  unfolding circle_Draw_def Let_def quo_two_min ..

text \<open>
  For every DrawContext, \<^verbatim>\<open>circle.Draw\<close> makes exactly three calls: one DrawCircle
  centred at \<open>(x + w/2, y + h/2)\<close> whose radius is the integer quotient
  \<open>min w h / 2\<close> (Go's truncating division, converted to float64), then SetColor with the
  context colour, then Fill.
\<close>

lemma circle_Draw_calls:
  "circle_Draw c =
     [CallDrawCircle (dc_x c + of_int (dc_w c) / 2) (dc_y c + of_int (dc_h c) / 2)
        (of_int (quo (min (dc_w c) (dc_h c)) 2)),
      CallSetColor (dc_color c),
      CallFill]"
  by (rule circle_Draw_eq)

text \<open>
  C8 fails on a cell of odd edge. \<^verbatim>\<open>circle.Draw\<close> halves the edges with Go's integer
  division (\<^verbatim>\<open>c.w / 2\<close>, \<^verbatim>\<open>c.h / 2\<close>) and only then converts to float64: for
  \<open>w = h = 5\<close> the radius it passes to DrawCircle is 2, where half of the smaller edge
  is 5/2. The centre, computed in float64, is the claim's. For the same context
  \<^verbatim>\<open>svgCircle.GenerateSVGPath\<close>, the circle of the SVG encoder, prints the radius 5/2.
\<close>

theorem circle_Draw_truncates_radius:
  "circle_Draw \<lparr>dc_x = 0, dc_y = 0, dc_w = 5, dc_h = 5,
       dc_color = \<lparr>red = 0, green = 0, blue = 0, alpha = 0xffff\<rparr>, dc_neighbours = 0\<rparr> =
     [CallDrawCircle (5 / 2) (5 / 2) 2,
      CallSetColor \<lparr>red = 0, green = 0, blue = 0, alpha = 0xffff\<rparr>,
      CallFill]
   \<and> (2 :: real) \<noteq> real_of_int (min 5 5) / 2
   \<and> svgCircle_GenerateSVGPath (\<lambda>v. if v = 5 / 2 then ''2.50'' else ''0.00'')
       \<lparr>dc_x = 0, dc_y = 0, dc_w = 5, dc_h = 5,
        dc_color = \<lparr>red = 0, green = 0, blue = 0, alpha = 0xffff\<rparr>, dc_neighbours = 0\<rparr> False =
     ''<circle cx='' @ [CHR 0x22] @ ''2.50'' @ [CHR 0x22] @ '' cy='' @ [CHR 0x22] @ ''2.50'' @
     [CHR 0x22] @ '' r='' @ [CHR 0x22] @ ''2.50'' @ [CHR 0x22] @ ''/>''"
  by (simp add: circle_Draw_def quo_two svgCircle_GenerateSVGPath_def UpperLeft_def Edge_def)

text \<open>When the smaller edge is even the radius is exactly half of it.\<close>

lemma circle_Draw_even_radius:
  assumes "even (min (dc_w c) (dc_h c))"
  shows "circle_Draw c =
     [CallDrawCircle (dc_x c + of_int (dc_w c) / 2) (dc_y c + of_int (dc_h c) / 2)
        (of_int (min (dc_w c) (dc_h c)) / 2),
      CallSetColor (dc_color c),
      CallFill]"
proof -
  obtain k where k: "min (dc_w c) (dc_h c) = 2 * k"
    using assms by (auto elim: evenE)
  have "quo (2 * k) 2 = k"
    unfolding quo_two by presburger
  then show ?thesis
    unfolding circle_Draw_eq k by simp
qed

text \<open>The SVG encoder's own circle has a radius of exactly half the smaller edge.\<close>

lemma svgCircle_radius:
  "svgCircle_GenerateSVGPath F c hg =
     ''<circle cx='' @ [CHR 0x22] @ F (dc_x c + of_int (dc_w c) / 2) @ [CHR 0x22] @
     '' cy='' @ [CHR 0x22] @ F (dc_y c + of_int (dc_h c) / 2) @ [CHR 0x22] @
     '' r='' @ [CHR 0x22] @ F (of_int (min (dc_w c) (dc_h c)) / 2) @ [CHR 0x22] @ ''/>''"
proof -
  have "(if real_of_int (dc_h c) / 2 < real_of_int (dc_w c) / 2 then real_of_int (dc_h c) / 2
         else real_of_int (dc_w c) / 2) = real_of_int (min (dc_w c) (dc_h c)) / 2"
    by (simp add: min_def)
  then show ?thesis
    by (simp add: svgCircle_GenerateSVGPath_def UpperLeft_def Edge_def Let_def)
qed

subsection \<open>The path recorder: commit points\<close>

lemma Join_empty_sep: "Join xs [] = concat xs"
  by (induction xs "[] :: string" rule: Join.induct) simp_all

text \<open>
  C3 (as amended). \<^verbatim>\<open>Fill\<close> and \<^verbatim>\<open>Stroke\<close> reset the three stroke attributes (dash
  pattern, line width, line cap) and empty the pending commands; the fill rule is not
  touched by either.
\<close>

theorem Fill_Stroke_reset:
  "strokeDash (Fill F r) = [] \<and> strokeWidth (Fill F r) = 0 \<and> strokeLineCap (Fill F r) = ''''
   \<and> currentCommands (Fill F r) = [] \<and> fillRule (Fill F r) = fillRule r
   \<and> strokeDash (Stroke F r) = [] \<and> strokeWidth (Stroke F r) = 0
   \<and> strokeLineCap (Stroke F r) = ''''
   \<and> currentCommands (Stroke F r) = [] \<and> fillRule (Stroke F r) = fillRule r"
  by (simp add: Fill_def Stroke_def Let_def)

theorem Fill_Stroke_reset_witness:
  "strokeDash (Fill (\<lambda>v. ''1.00'')
      (SetDash [4, 2] (SetLineWidth 3 (SetLineCapSquare (NewSVGPathRecorder False))))) = []
   \<and> strokeWidth (Stroke (\<lambda>v. ''1.00'')
      (SetDash [4, 2] (SetLineWidth 3 (SetLineCapSquare (NewSVGPathRecorder False))))) = 0
   \<and> fillRule (Stroke (\<lambda>v. ''1.00'') (SetFillRuleWinding (NewSVGPathRecorder False))) = ''nonzero''"
  using Fill_Stroke_reset [of "\<lambda>v. ''1.00''"
      "SetDash [4, 2] (SetLineWidth 3 (SetLineCapSquare (NewSVGPathRecorder False)))"]
    Fill_Stroke_reset [of "\<lambda>v. ''1.00''" "SetFillRuleWinding (NewSVGPathRecorder False)"]
  by (simp add: SetFillRuleWinding_def NewSVGPathRecorder_def)

text \<open>
  C3 as stated fails for the fill rule: after \<^verbatim>\<open>SetFillRuleEvenOdd\<close> a \<^verbatim>\<open>Fill\<close> (or a
  \<^verbatim>\<open>Stroke\<close>) leaves it set, and the next path filled through the same recorder
  carries \<^verbatim>\<open>fill-rule="evenodd"\<close>.
\<close>

theorem fillRule_survives_counterexample:
  "fillRule (Fill (\<lambda>v. ''0.00'') (SetFillRuleEvenOdd (NewSVGPathRecorder False))) = ''evenodd''
   \<and> fillRule (Stroke (\<lambda>v. ''0.00'') (SetFillRuleEvenOdd (NewSVGPathRecorder False))) = ''evenodd''
   \<and> pathElements (record_calls (\<lambda>v. ''0.00'') (NewSVGPathRecorder True)
        [CallSetFillRuleEvenOdd, CallMoveTo 0 0, CallFill, CallMoveTo 0 0, CallFill]) ! 1 =
      ''<path d='' @ dq @ ''M0.00 0.00'' @ dq @ '' fill-rule='' @ dq @ ''evenodd'' @ dq @ ''/>''"
  by (simp add: record_calls_def NewSVGPathRecorder_def SetFillRuleEvenOdd_def MoveTo_def
      Fill_def Stroke_def generateSVGPathElement_def Let_def)

lemma record_call_pending:
  assumes "\<not> commits c"
  shows "currentCommands (record_call F r c) = currentCommands r @ pathTokens F [c]"
    and "pathElements (record_call F r c) = pathElements r"
    and "hasGradient (record_call F r c) = hasGradient r"
  using assms
  by (cases c; simp add: pathTokens_def MoveTo_def LineTo_def QuadraticTo_def ClosePath_def
      DrawCircle_def DrawRectangle_def SetColor_def SetDash_def SetLineWidth_def SetLineCap_def
      SetLineCapSquare_def SetFillRuleEvenOdd_def SetFillRuleWinding_def NewSubPath_def)+

lemma pathTokens_Cons: "pathTokens F (c # cs) = pathTokens F [c] @ pathTokens F cs"
  by (simp add: pathTokens_def)

lemma pathTokens_append: "pathTokens F (xs @ ys) = pathTokens F xs @ pathTokens F ys"
  by (simp add: pathTokens_def)

lemma record_calls_pending:
  assumes "\<forall>c \<in> set cs. \<not> commits c"
  shows "currentCommands (record_calls F r cs) = currentCommands r @ pathTokens F cs
         \<and> pathElements (record_calls F r cs) = pathElements r
         \<and> hasGradient (record_calls F r cs) = hasGradient r"
  using assms
proof (induction cs arbitrary: r)
  case Nil
  show ?case by (simp add: record_calls_def pathTokens_def)
next
  case (Cons c cs)
  have c: "\<not> commits c" and cs: "\<forall>c \<in> set cs. \<not> commits c"
    using Cons.prems by simp_all
  have step: "record_calls F r (c # cs) = record_calls F (record_call F r c) cs"
    by (simp add: record_calls_def)
  show ?case
    unfolding step
    using Cons.IH [OF cs, of "record_call F r c"] record_call_pending [OF c, of F r]
    by (simp add: pathTokens_Cons [of F c cs])
qed

lemma record_calls_append:
  "record_calls F r (xs @ ys) = record_calls F (record_calls F r xs) ys"
  by (simp add: record_calls_def)

lemma toSVGPath_eq:
  "toSVGPath F r =
     concat (pathElements r) @
     (if currentCommands r = [] then ''''
      else generateSVGPathElement F r (Join (currentCommands r) '' '') ''fill''
             (if hasGradient r then '''' else colorToHex (currentColor r)))"
  by (simp add: toSVGPath_def Fill_def Let_def Join_empty_sep)

lemma fill_element_shape:
  "\<exists>attrs. generateSVGPathElement F r d ''fill'' cs = ''<path d='' @ dq @ d @ dq @ attrs @ ''/>''"
  unfolding generateSVGPathElement_def Let_def
  by (cases "length ((if fillRule r \<noteq> [] then [''fill-rule='' @ dq @ fillRule r @ dq] else []) @
           (if cs \<noteq> [] then [''fill='' @ dq @ cs @ dq] else [])) > 0")
     (simp_all del: length_greater_0_conv)

lemma shape_output:
  assumes split: "shape_Draw ctx = pre @ post"
    and post: "\<forall>c \<in> set post. \<not> commits c"
  shows "svgPathShape_GenerateSVGPath F shape_Draw ctx hg =
           concat (pathElements (record_calls F (NewSVGPathRecorder hg) pre)) @
           (if currentCommands (record_calls F (NewSVGPathRecorder hg) pre) @ pathTokens F post = []
            then ''''
            else generateSVGPathElement F (record_calls F (NewSVGPathRecorder hg) (pre @ post))
                   (Join (currentCommands (record_calls F (NewSVGPathRecorder hg) pre) @
                          pathTokens F post) '' '')
                   ''fill''
                   (if hasGradient (record_calls F (NewSVGPathRecorder hg) (pre @ post)) then ''''
                    else colorToHex (currentColor (record_calls F (NewSVGPathRecorder hg) (pre @ post)))))"
proof -
  let ?R = "record_calls F (NewSVGPathRecorder hg) pre"
  have "record_calls F (NewSVGPathRecorder hg) (pre @ post) = record_calls F ?R post"
    by (rule record_calls_append)
  with record_calls_pending [OF post, of F ?R]
  have cc: "currentCommands (record_calls F (NewSVGPathRecorder hg) (pre @ post)) =
              currentCommands ?R @ pathTokens F post"
    and pe: "pathElements (record_calls F (NewSVGPathRecorder hg) (pre @ post)) = pathElements ?R"
    by simp_all
  show ?thesis
    unfolding svgPathShape_GenerateSVGPath_def split
      toSVGPath_eq [of F "record_calls F (NewSVGPathRecorder hg) (pre @ post)"] cc pe ..
qed

lemma shape_pending:
  assumes split: "shape_Draw ctx = pre @ post"
    and post: "\<forall>c \<in> set post. \<not> commits c"
  shows "currentCommands (record_calls F (NewSVGPathRecorder hg) (shape_Draw ctx)) =
          currentCommands (record_calls F (NewSVGPathRecorder hg) pre) @ pathTokens F post"
    and "pathElements (record_calls F (NewSVGPathRecorder hg) (shape_Draw ctx)) =
          pathElements (record_calls F (NewSVGPathRecorder hg) pre)"
proof -
  let ?R = "record_calls F (NewSVGPathRecorder hg) pre"
  have app: "record_calls F (NewSVGPathRecorder hg) (shape_Draw ctx) = record_calls F ?R post"
    unfolding split by (rule record_calls_append)
  from record_calls_pending [OF post, of F ?R]
  show "currentCommands (record_calls F (NewSVGPathRecorder hg) (shape_Draw ctx)) =
          currentCommands ?R @ pathTokens F post"
    and "pathElements (record_calls F (NewSVGPathRecorder hg) (shape_Draw ctx)) = pathElements ?R"
    unfolding app by blast+
qed

lemma shape_final:
  assumes split: "shape_Draw ctx = pre @ post"
    and post: "\<forall>c \<in> set post. \<not> commits c"
  shows "if currentCommands (record_calls F (NewSVGPathRecorder hg) pre) @ pathTokens F post = []
           then svgPathShape_GenerateSVGPath F shape_Draw ctx hg =
                  concat (pathElements (record_calls F (NewSVGPathRecorder hg) pre))
           else (\<exists>attrs. svgPathShape_GenerateSVGPath F shape_Draw ctx hg =
                  concat (pathElements (record_calls F (NewSVGPathRecorder hg) pre)) @
                  ''<path d='' @ dq @
                  Join (currentCommands (record_calls F (NewSVGPathRecorder hg) pre) @
                        pathTokens F post) '' '' @
                  dq @ attrs @ ''/>'')"
proof -
  define R where "R = record_calls F (NewSVGPathRecorder hg) pre"
  define R' where "R' = record_calls F (NewSVGPathRecorder hg) (pre @ post)"
  define pending where "pending = currentCommands R @ pathTokens F post"
  define out where "out = svgPathShape_GenerateSVGPath F shape_Draw ctx hg"
  define el where "el = generateSVGPathElement F R' (Join pending '' '') ''fill''
                          (if hasGradient R' then '''' else colorToHex (currentColor R'))"
  have so: "out = concat (pathElements R) @ (if pending = [] then '''' else el)"
    unfolding out_def R_def R'_def pending_def el_def
    by (rule shape_output [where shape_Draw = shape_Draw and ctx = ctx and pre = pre
          and post = post and F = F and hg = hg, OF split post])
  have el: "\<exists>attrs. el = ''<path d='' @ dq @ Join pending '' '' @ dq @ attrs @ ''/>''"
    unfolding el_def by (rule fill_element_shape)
  have "if pending = [] then out = concat (pathElements R)
        else (\<exists>attrs. out = concat (pathElements R) @ ''<path d='' @ dq @ Join pending '' '' @
                dq @ attrs @ ''/>'')"
  proof (cases "pending = []")
    case True
    with so show ?thesis by simp
  next
    case False
    from el obtain attrs where a: "el = ''<path d='' @ dq @ Join pending '' '' @ dq @ attrs @ ''/>''"
      by blast
    from so False have "out = concat (pathElements R) @ el" by simp
    then have b: "out = concat (pathElements R) @ ''<path d='' @ dq @ Join pending '' '' @
                dq @ attrs @ ''/>''"
      unfolding a .
    have "\<exists>attrs. out = concat (pathElements R) @ ''<path d='' @ dq @ Join pending '' '' @
                dq @ attrs @ ''/>''"
    proof (rule exI)
      show "out = concat (pathElements R) @ ''<path d='' @ dq @ Join pending '' '' @
                dq @ attrs @ ''/>''" by (fact b)
    qed
    with False show ?thesis by (simp only: if_False)
  qed
  then show ?thesis
    unfolding out_def R_def pending_def .
qed

text \<open>
  C10. \<^verbatim>\<open>toSVGPath\<close> returns the committed path elements followed, when commands are
  pending, by one more path element made by the fill branch of
  \<^verbatim>\<open>generateSVGPathElement\<close> from all pending commands (joined by spaces) and the
  current colour; that element opens with \<^verbatim>\<open><path d="\<close> and the pending commands.
  For a shape rendered through \<^verbatim>\<open>svgPathShape\<close>: split the calls of its \<^verbatim>\<open>Draw\<close> at
  any point after which it calls neither Fill nor Stroke (after its last commit, or at
  the start when it never commits). The commands pending at the end are the ones pending
  at the split followed by the token of every path-building call made after it, in order,
  and when there is one the output ends with a path element holding exactly these; when
  there is none the output is the committed elements alone.
\<close>

theorem toSVGPath_commits_pending:
  "toSVGPath F r =
     concat (pathElements r) @
     (if currentCommands r = [] then ''''
      else generateSVGPathElement F r (Join (currentCommands r) '' '') ''fill''
             (if hasGradient r then '''' else colorToHex (currentColor r)))
   \<and> (\<exists>attrs. generateSVGPathElement F r (Join (currentCommands r) '' '') ''fill''
             (if hasGradient r then '''' else colorToHex (currentColor r)) =
         ''<path d='' @ dq @ Join (currentCommands r) '' '' @ dq @ attrs @ ''/>'')
   \<and> svgPathShape_GenerateSVGPath F shape_Draw ctx hg =
       toSVGPath F (record_calls F (NewSVGPathRecorder hg) (shape_Draw ctx))
   \<and> (shape_Draw ctx = pre @ post \<and> (\<forall>c \<in> set post. \<not> commits c) \<longrightarrow>
        currentCommands (record_calls F (NewSVGPathRecorder hg) (shape_Draw ctx)) =
          currentCommands (record_calls F (NewSVGPathRecorder hg) pre) @ pathTokens F post
        \<and> pathElements (record_calls F (NewSVGPathRecorder hg) (shape_Draw ctx)) =
          pathElements (record_calls F (NewSVGPathRecorder hg) pre)
        \<and> (if currentCommands (record_calls F (NewSVGPathRecorder hg) pre) @ pathTokens F post = []
           then svgPathShape_GenerateSVGPath F shape_Draw ctx hg =
                  concat (pathElements (record_calls F (NewSVGPathRecorder hg) pre))
           else (\<exists>attrs. svgPathShape_GenerateSVGPath F shape_Draw ctx hg =
                  concat (pathElements (record_calls F (NewSVGPathRecorder hg) pre)) @
                  ''<path d='' @ dq @
                  Join (currentCommands (record_calls F (NewSVGPathRecorder hg) pre) @
                        pathTokens F post) '' '' @
                  dq @ attrs @ ''/>'')))"
proof (intro conjI impI)
  show "toSVGPath F r =
     concat (pathElements r) @
     (if currentCommands r = [] then ''''
      else generateSVGPathElement F r (Join (currentCommands r) '' '') ''fill''
             (if hasGradient r then '''' else colorToHex (currentColor r)))"
    by (rule toSVGPath_eq)
next
  show "\<exists>attrs. generateSVGPathElement F r (Join (currentCommands r) '' '') ''fill''
             (if hasGradient r then '''' else colorToHex (currentColor r)) =
         ''<path d='' @ dq @ Join (currentCommands r) '' '' @ dq @ attrs @ ''/>''"
    by (rule fill_element_shape)
next
  show "svgPathShape_GenerateSVGPath F shape_Draw ctx hg =
       toSVGPath F (record_calls F (NewSVGPathRecorder hg) (shape_Draw ctx))"
    by (simp add: svgPathShape_GenerateSVGPath_def)
next
  assume a: "shape_Draw ctx = pre @ post \<and> (\<forall>c \<in> set post. \<not> commits c)"
  then have sp: "shape_Draw ctx = pre @ post" and post: "\<forall>c \<in> set post. \<not> commits c"
    by simp_all
  show "currentCommands (record_calls F (NewSVGPathRecorder hg) (shape_Draw ctx)) =
          currentCommands (record_calls F (NewSVGPathRecorder hg) pre) @ pathTokens F post"
    by (rule shape_pending(1) [where shape_Draw = shape_Draw and ctx = ctx and pre = pre
          and post = post and F = F and hg = hg, OF sp post])
  show "pathElements (record_calls F (NewSVGPathRecorder hg) (shape_Draw ctx)) =
          pathElements (record_calls F (NewSVGPathRecorder hg) pre)"
    by (rule shape_pending(2) [where shape_Draw = shape_Draw and ctx = ctx and pre = pre
          and post = post and F = F and hg = hg, OF sp post])
  show "if currentCommands (record_calls F (NewSVGPathRecorder hg) pre) @ pathTokens F post = []
           then svgPathShape_GenerateSVGPath F shape_Draw ctx hg =
                  concat (pathElements (record_calls F (NewSVGPathRecorder hg) pre))
           else (\<exists>attrs. svgPathShape_GenerateSVGPath F shape_Draw ctx hg =
                  concat (pathElements (record_calls F (NewSVGPathRecorder hg) pre)) @
                  ''<path d='' @ dq @
                  Join (currentCommands (record_calls F (NewSVGPathRecorder hg) pre) @
                        pathTokens F post) '' '' @
                  dq @ attrs @ ''/>'')"
    by (rule shape_final [where shape_Draw = shape_Draw and ctx = ctx and pre = pre
          and post = post and F = F and hg = hg, OF sp post])
qed

text \<open>
  A shape that draws a rectangle and never fills it, and a shape that draws a line after
  its last Fill: the rectangle's four corners and the line are in the output.
\<close>

theorem toSVGPath_commits_pending_witness:
  "svgPathShape_GenerateSVGPath (\<lambda>v. if v = 0 then ''0.00'' else ''5.00'')
      (\<lambda>c. [CallSetColor (dc_color c), CallDrawRectangle (dc_x c) (dc_y c) 5 5])
      \<lparr>dc_x = 0, dc_y = 0, dc_w = 5, dc_h = 5,
       dc_color = \<lparr>red = 0xffff, green = 0, blue = 0, alpha = 0xffff\<rparr>, dc_neighbours = 0\<rparr>
      False =
    ''<path d='' @ dq @ ''M0.00 0.00 L5.00 0.00 L5.00 5.00 L0.00 5.00 Z'' @ dq @
    '' fill='' @ dq @ ''#ff0000'' @ dq @ ''/>''
   \<and> currentCommands (record_calls (\<lambda>v. if v = 0 then ''0.00'' else ''5.00'')
        (NewSVGPathRecorder False)
        [CallMoveTo 0 0, CallFill, CallMoveTo 5 5, CallLineTo 0 5]) =
      [''M5.00 5.00'', ''L0.00 5.00'']"
  using toSVGPath_commits_pending [where F = "\<lambda>v. if v = 0 then ''0.00'' else ''5.00''"
      and shape_Draw = "\<lambda>c. [CallSetColor (dc_color c), CallDrawRectangle (dc_x c) (dc_y c) 5 5]"
      and ctx = "\<lparr>dc_x = 0, dc_y = 0, dc_w = 5, dc_h = 5,
       dc_color = \<lparr>red = 0xffff, green = 0, blue = 0, alpha = 0xffff\<rparr>, dc_neighbours = 0\<rparr>"
      and hg = False and pre = "[]"
      and post = "[CallSetColor \<lparr>red = 0xffff, green = 0, blue = 0, alpha = 0xffff\<rparr>,
                   CallDrawRectangle 0 0 5 5]"
      and r = "NewSVGPathRecorder False"]
    toSVGPath_commits_pending [where F = "\<lambda>v. if v = 0 then ''0.00'' else ''5.00''"
      and shape_Draw = "\<lambda>c. [CallMoveTo 0 0, CallFill, CallMoveTo 5 5, CallLineTo 0 5]"
      and ctx = "\<lparr>dc_x = 0, dc_y = 0, dc_w = 5, dc_h = 5,
       dc_color = \<lparr>red = 0xffff, green = 0, blue = 0, alpha = 0xffff\<rparr>, dc_neighbours = 0\<rparr>"
      and hg = False and pre = "[CallMoveTo 0 0, CallFill]"
      and post = "[CallMoveTo 5 5, CallLineTo 0 5]"
      and r = "NewSVGPathRecorder False"]
  by (simp add: record_calls_def NewSVGPathRecorder_def SetColor_def MoveTo_def LineTo_def
      DrawRectangle_def Fill_def pathTokens_def toSVGPath_def svgPathShape_GenerateSVGPath_def
      generateSVGPathElement_def colorToHex_def hex2_def hexdigit_def shr8_def Let_def)

subsection \<open>Canvas size\<close>

lemma WithBorderWidth_four:
  "WithBorderWidth dp [wtop, wright, wbottom, wleft] = [wtop, wright, wbottom, wleft]"
  by (simp add: WithBorderWidth_def apply_borders_def)

text \<open>
  \<^verbatim>\<open>SvgoEncoder.EncodeMatrix\<close> declares the canvas of the claim: left and right borders
  in the width, top and bottom borders in the height.
\<close>

lemma SvgoEncoder_canvas_borders:
  "SvgoEncoder_canvas cols rows bw (WithBorderWidth dp [wtop, wright, wbottom, wleft]) =
     (cols * bw + wleft + wright, rows * bw + wtop + wbottom)"
  by (simp add: WithBorderWidth_four SvgoEncoder_canvas_def)

text \<open>
  C4 fails on \<^verbatim>\<open>svgEncoder.EncodeMatrix\<close>, which adds the top and right borders
  to the width and the bottom and left borders to the height, while it places the modules
  with the left and top borders. With 21 by 21 modules of 10 pixels and borders
  top 10, right 20, bottom 30, left 40 it declares 240 by 280 where the claim (and
  \<^verbatim>\<open>SvgoEncoder\<close>) has 270 by 250; the last module column then ends at pixel 250,
  outside the declared width.
\<close>

theorem svgEncoder_canvas_wrong_borders:
  "svgEncoder_canvas 21 21 10 (WithBorderWidth 40 [10, 20, 30, 40]) = (240, 280)
   \<and> SvgoEncoder_canvas 21 21 10 (WithBorderWidth 40 [10, 20, 30, 40]) = (270, 250)
   \<and> (21 * 10 + 40 + 20, 21 * 10 + 10 + 30) = (270 :: int, 250 :: int)
   \<and> fst (blockOrigin 10 (WithBorderWidth 40 [10, 20, 30, 40]) 20 20) + 10 = 250"
  by (simp add: WithBorderWidth_four svgEncoder_canvas_def SvgoEncoder_canvas_def
      blockOrigin_def)

lemma svgEncoder_canvas_borders:
  "svgEncoder_canvas cols rows bw (WithBorderWidth dp [wtop, wright, wbottom, wleft]) =
     (cols * bw + wtop + wright, rows * bw + wbottom + wleft)"
  by (simp add: WithBorderWidth_four svgEncoder_canvas_def)

subsection \<open>Unset modules and the halftone sub-cells\<close>

text \<open>
  C6 (as amended). An unset module produces no output in the first revision of
  \<^verbatim>\<open>svgEncoder.EncodeMatrix\<close> and in \<^verbatim>\<open>SvgoEncoder.EncodeMatrix\<close>, halftone or not.
  In the second revision of \<^verbatim>\<open>svgEncoder.EncodeMatrix\<close> an unset module produces no
  output unless a halftone source is configured, the module is of type DATA and it is
  not skipped for the logo; then it gets the 3 by 3 halftone sub-cell rendering.
\<close>

theorem unset_module_output:
  assumes "\<not> IsSet v"
  shows "svgEncoder_module E mx my v =
           (if \<not> overlapsLogo E mx my \<and> hasHalftone E \<and> QType v = QRType_DATA
            then svgEncoder_halftone E mx my v else [])
         \<and> legacy_module F E mx my v = []
         \<and> Svgo_module E mx my v = []"
  using assms by (simp add: svgEncoder_module_def legacy_module_def Svgo_module_def)

theorem unset_module_output_witness:
  "svgEncoder_module (sampleEnv (\<lambda>px py. Black)) 2 3 \<lparr>IsSet = False, QType = QRType_DATA\<rparr> =
     svgEncoder_halftone (sampleEnv (\<lambda>px py. Black)) 2 3 \<lparr>IsSet = False, QType = QRType_DATA\<rparr>
   \<and> svgEncoder_module (sampleEnv (\<lambda>px py. Black)) 2 3 \<lparr>IsSet = False, QType = QRType_other 0\<rparr> = []
   \<and> legacy_module (\<lambda>f. ''0.00'') (sampleEnv (\<lambda>px py. Black)) 2 3
        \<lparr>IsSet = False, QType = QRType_DATA\<rparr> = []
   \<and> Svgo_module (sampleEnv (\<lambda>px py. Black)) 2 3 \<lparr>IsSet = False, QType = QRType_DATA\<rparr> = []"
  using unset_module_output [of "\<lparr>IsSet = False, QType = QRType_DATA\<rparr>"
      "sampleEnv (\<lambda>px py. Black)" 2 3 "\<lambda>f. ''0.00''"]
    unset_module_output [of "\<lparr>IsSet = False, QType = QRType_other 0\<rparr>"
      "sampleEnv (\<lambda>px py. Black)" 2 3 "\<lambda>f. ''0.00''"]
  by (simp add: sampleEnv_def overlapsLogo_def)

text \<open>
  C6 as stated fails on \<^verbatim>\<open>SvgoEncoder\<close> and on the first revision of
  \<^verbatim>\<open>svgEncoder\<close>: with a halftone source of black samples, an unset DATA module
  produces nothing there, while the second revision of \<^verbatim>\<open>svgEncoder\<close> writes eight
  sub-cells for it (the centre, white like the unset module, is elided).
\<close>

theorem unset_halftone_counterexample:
  "Svgo_module (sampleEnv (\<lambda>px py. Black)) 2 3 \<lparr>IsSet = False, QType = QRType_DATA\<rparr> = []
   \<and> legacy_module (\<lambda>f. ''0.00'') (sampleEnv (\<lambda>px py. Black)) 2 3
        \<lparr>IsSet = False, QType = QRType_DATA\<rparr> = []
   \<and> length (svgEncoder_module (sampleEnv (\<lambda>px py. Black)) 2 3
        \<lparr>IsSet = False, QType = QRType_DATA\<rparr>) = 8"
  by (simp add: Svgo_module_def legacy_module_def svgEncoder_module_def overlapsLogo_def
      svgEncoder_halftone_def svgEncoder_subcell_def moduleContext_def sampleEnv_def
      Black_def White_def shr8_def Let_def)

lemma svgEncoder_subcell_length:
  "length (svgEncoder_subcell E mx my v i j) =
     (if elided (svgEncoder_subcolor E mx my v i j) then 0 else 1)"
  by (simp add: svgEncoder_subcell_def svgEncoder_subcolor_def elided_def moduleContext_def
      Let_def)

lemma svgEncoder_halftone_length:
  "length (svgEncoder_halftone E mx my v) =
     length (svgEncoder_subcell E mx my v 0 0) + length (svgEncoder_subcell E mx my v 0 1) +
     length (svgEncoder_subcell E mx my v 0 2) + length (svgEncoder_subcell E mx my v 1 0) +
     length (svgEncoder_subcell E mx my v 1 1) + length (svgEncoder_subcell E mx my v 1 2) +
     length (svgEncoder_subcell E mx my v 2 0) + length (svgEncoder_subcell E mx my v 2 1) +
     length (svgEncoder_subcell E mx my v 2 2)"
  by (simp add: svgEncoder_halftone_def)

lemma nine_flags:
  fixes a :: nat
  assumes "a \<le> 1" "b \<le> 1" "c \<le> 1" "d \<le> 1" "e \<le> 1" "f \<le> 1" "g \<le> 1" "h \<le> 1" "k \<le> 1"
  shows "a + b + c + d + e + f + g + h + k \<le> 9"
    and "(a + b + c + d + e + f + g + h + k = 9) =
         (a = 1 \<and> b = 1 \<and> c = 1 \<and> d = 1 \<and> e = 1 \<and> f = 1 \<and> g = 1 \<and> h = 1 \<and> k = 1)"
  using assms by linarith+

lemma svgEncoder_module_halftone:
  assumes "hasHalftone E" "QType v = QRType_DATA"
  shows "svgEncoder_module E mx my v =
           (if overlapsLogo E mx my then [] else svgEncoder_halftone E mx my v)"
  using assms by (simp add: svgEncoder_module_def)

lemma svgEncoder_halftone_cells:
  "svgEncoder_halftone E mx my v =
     svgEncoder_subcell E mx my v 0 0 @ svgEncoder_subcell E mx my v 0 1 @
     svgEncoder_subcell E mx my v 0 2 @ svgEncoder_subcell E mx my v 1 0 @
     svgEncoder_subcell E mx my v 1 1 @ svgEncoder_subcell E mx my v 1 2 @
     svgEncoder_subcell E mx my v 2 0 @ svgEncoder_subcell E mx my v 2 1 @
     svgEncoder_subcell E mx my v 2 2"
  by (simp add: svgEncoder_halftone_def)

lemma svgEncoder_subcell_eq:
  "svgEncoder_subcell E mx my v i j =
     (if elided (svgEncoder_subcolor E mx my v i j) then []
      else [''<g fill='' @ dq @ hexRGB (svgEncoder_subcolor E mx my v i j) @ dq @ ''>'' @
            GenerateSVGPath E
              \<lparr>dc_x = of_int (mx * qrBlockWidth E + borderWidths E ! 3) +
                       of_int i * (of_int (qrBlockWidth E) / 3),
               dc_y = of_int (my * qrBlockWidth E + borderWidths E ! 0) +
                       of_int j * (of_int (qrBlockWidth E) / 3),
               dc_w = trunc (of_int (qrBlockWidth E) / 3),
               dc_h = trunc (of_int (qrBlockWidth E) / 3),
               dc_color = svgEncoder_subcolor E mx my v i j,
               dc_neighbours = getNeighbours E mx my\<rparr> False @
            ''</g>'' @ bsn])"
  by (simp add: svgEncoder_subcell_def svgEncoder_subcolor_def moduleContext_def elided_def
      hexRGB_def Let_def)

lemma svgEncoder_halftone_count:
  "length (svgEncoder_halftone E mx my v) \<le> 9"
  "(length (svgEncoder_halftone E mx my v) = 9) =
       (\<forall>i \<in> {0, 1, 2}. \<forall>j \<in> {0, 1, 2}. \<not> elided (svgEncoder_subcolor E mx my v i j))"
proof -
  note len = svgEncoder_subcell_length [of E mx my v]
  have le: "length (svgEncoder_subcell E mx my v i j) \<le> 1" for i j
    by (simp add: len)
  show "length (svgEncoder_halftone E mx my v) \<le> 9"
    unfolding svgEncoder_halftone_length by (rule nine_flags(1)) (rule le)+
  have "(length (svgEncoder_halftone E mx my v) = 9) =
        (length (svgEncoder_subcell E mx my v 0 0) = 1 \<and> length (svgEncoder_subcell E mx my v 0 1) = 1 \<and>
         length (svgEncoder_subcell E mx my v 0 2) = 1 \<and> length (svgEncoder_subcell E mx my v 1 0) = 1 \<and>
         length (svgEncoder_subcell E mx my v 1 1) = 1 \<and> length (svgEncoder_subcell E mx my v 1 2) = 1 \<and>
         length (svgEncoder_subcell E mx my v 2 0) = 1 \<and> length (svgEncoder_subcell E mx my v 2 1) = 1 \<and>
         length (svgEncoder_subcell E mx my v 2 2) = 1)"
    unfolding svgEncoder_halftone_length by (rule nine_flags(2)) (rule le)+
  also have "\<dots> = (\<forall>i \<in> {0, 1, 2}. \<forall>j \<in> {0, 1, 2}. \<not> elided (svgEncoder_subcolor E mx my v i j))"
    by (simp add: len)
  finally show "(length (svgEncoder_halftone E mx my v) = 9) =
       (\<forall>i \<in> {0, 1, 2}. \<forall>j \<in> {0, 1, 2}. \<not> elided (svgEncoder_subcolor E mx my v i j))" .
qed

lemma Svgo_module_halftone:
  assumes "hasHalftone E" "QType v = QRType_DATA" "IsSet v"
  shows "Svgo_module E mx my v =
           (if Svgo_overlapsLogo E (mx * qrBlockWidth E + borderWidths E ! 3)
                 (my * qrBlockWidth E + borderWidths E ! 0)
            then [] else Svgo_halftone E mx my v)"
  using assms by (simp add: Svgo_module_def Svgo_halftone_def Let_def)

lemma Svgo_halftone_cells:
  "Svgo_halftone E mx my v =
     Svgo_subcell E mx my v 0 0 @ Svgo_subcell E mx my v 0 1 @ Svgo_subcell E mx my v 0 2 @
     Svgo_subcell E mx my v 1 0 @ Svgo_subcell E mx my v 1 1 @ Svgo_subcell E mx my v 1 2 @
     Svgo_subcell E mx my v 2 0 @ Svgo_subcell E mx my v 2 1 @ Svgo_subcell E mx my v 2 2"
  by (simp add: Svgo_halftone_def)

lemma Svgo_subcell_eq:
  "Svgo_subcell E mx my v i j =
     (if Svgo_elided E mx my i j then []
      else [(\<lparr>dc_x = of_int (mx * qrBlockWidth E + borderWidths E ! 3 +
                              trunc (of_int i * (of_int (qrBlockWidth E) / 3))),
               dc_y = of_int (my * qrBlockWidth E + borderWidths E ! 0 +
                              trunc (of_int j * (of_int (qrBlockWidth E) / 3))),
               dc_w = trunc (of_int (qrBlockWidth E) / 3),
               dc_h = trunc (of_int (qrBlockWidth E) / 3),
               dc_color = Black, dc_neighbours = 0\<rparr>,
             QRType_DATA, Svgo_fill E mx my v i j)])"
  by (simp add: Svgo_subcell_def Svgo_elided_def Svgo_fill_def Let_def)

lemma Svgo_subcell_length:
  "length (Svgo_subcell E mx my v i j) = (if Svgo_elided E mx my i j then 0 else 1)"
  by (simp add: Svgo_subcell_eq)

lemma Svgo_halftone_count:
  "length (Svgo_halftone E mx my v) \<le> 9"
  "(length (Svgo_halftone E mx my v) = 9) =
       (\<forall>i \<in> {0, 1, 2}. \<forall>j \<in> {0, 1, 2}. \<not> Svgo_elided E mx my i j)"
proof -
  note len = Svgo_subcell_length [of E mx my v]
  have le: "length (Svgo_subcell E mx my v i j) \<le> 1" for i j
    by (simp add: len)
  have sum: "length (Svgo_halftone E mx my v) =
     length (Svgo_subcell E mx my v 0 0) + length (Svgo_subcell E mx my v 0 1) +
     length (Svgo_subcell E mx my v 0 2) + length (Svgo_subcell E mx my v 1 0) +
     length (Svgo_subcell E mx my v 1 1) + length (Svgo_subcell E mx my v 1 2) +
     length (Svgo_subcell E mx my v 2 0) + length (Svgo_subcell E mx my v 2 1) +
     length (Svgo_subcell E mx my v 2 2)"
    by (simp add: Svgo_halftone_def)
  show "length (Svgo_halftone E mx my v) \<le> 9"
    unfolding sum by (rule nine_flags(1)) (rule le)+
  have "(length (Svgo_halftone E mx my v) = 9) =
        (length (Svgo_subcell E mx my v 0 0) = 1 \<and> length (Svgo_subcell E mx my v 0 1) = 1 \<and>
         length (Svgo_subcell E mx my v 0 2) = 1 \<and> length (Svgo_subcell E mx my v 1 0) = 1 \<and>
         length (Svgo_subcell E mx my v 1 1) = 1 \<and> length (Svgo_subcell E mx my v 1 2) = 1 \<and>
         length (Svgo_subcell E mx my v 2 0) = 1 \<and> length (Svgo_subcell E mx my v 2 1) = 1 \<and>
         length (Svgo_subcell E mx my v 2 2) = 1)"
    unfolding sum by (rule nine_flags(2)) (rule le)+
  also have "\<dots> = (\<forall>i \<in> {0, 1, 2}. \<forall>j \<in> {0, 1, 2}. \<not> Svgo_elided E mx my i j)"
    by (simp add: len)
  finally show "(length (Svgo_halftone E mx my v) = 9) =
       (\<forall>i \<in> {0, 1, 2}. \<forall>j \<in> {0, 1, 2}. \<not> Svgo_elided E mx my i j)" .
qed
text \<open>
  C7 (as amended). With a halftone source configured, a DATA module that is rendered
  (not skipped for the logo; in \<^verbatim>\<open>SvgoEncoder\<close> also set) is drawn by the halftone loops
  alone, in both encoders. The loops visit the nine cells of the 3 by 3 subdivision in
  order and make one draw for each cell that is not elided, none for the others: hence at
  most nine draws, and nine exactly when no cell is elided. \<^verbatim>\<open>svgEncoder\<close> (second
  revision) elides a cell whose colour is transparent or pure white on the 8-bit channels
  and fills the others with their colour; \<^verbatim>\<open>SvgoEncoder\<close> elides a cell other than the
  centre whose halftone sample has alpha 0 and fills the others with their sample. The
  colour of the centre cell is the module's resolved colour whatever the halftone samples
  are (in \<^verbatim>\<open>SvgoEncoder\<close> the gradient reference when a gradient is configured); in
  \<^verbatim>\<open>SvgoEncoder\<close> the centre is always drawn, in \<^verbatim>\<open>svgEncoder\<close> unless that colour is
  itself elided.
\<close>

theorem halftone_subcells:
  "(hasHalftone E \<and> QType v = QRType_DATA \<longrightarrow>
      svgEncoder_module E mx my v =
        (if overlapsLogo E mx my then [] else svgEncoder_halftone E mx my v))
   \<and> svgEncoder_halftone E mx my v =
       svgEncoder_subcell E mx my v 0 0 @ svgEncoder_subcell E mx my v 0 1 @
       svgEncoder_subcell E mx my v 0 2 @ svgEncoder_subcell E mx my v 1 0 @
       svgEncoder_subcell E mx my v 1 1 @ svgEncoder_subcell E mx my v 1 2 @
       svgEncoder_subcell E mx my v 2 0 @ svgEncoder_subcell E mx my v 2 1 @
       svgEncoder_subcell E mx my v 2 2
   \<and> svgEncoder_subcell E mx my v i j =
       (if elided (svgEncoder_subcolor E mx my v i j) then []
        else [''<g fill='' @ dq @ hexRGB (svgEncoder_subcolor E mx my v i j) @ dq @ ''>'' @
              GenerateSVGPath E
                \<lparr>dc_x = of_int (mx * qrBlockWidth E + borderWidths E ! 3) +
                         of_int i * (of_int (qrBlockWidth E) / 3),
                 dc_y = of_int (my * qrBlockWidth E + borderWidths E ! 0) +
                         of_int j * (of_int (qrBlockWidth E) / 3),
                 dc_w = trunc (of_int (qrBlockWidth E) / 3),
                 dc_h = trunc (of_int (qrBlockWidth E) / 3),
                 dc_color = svgEncoder_subcolor E mx my v i j,
                 dc_neighbours = getNeighbours E mx my\<rparr> False @
              ''</g>'' @ bsn])
   \<and> length (svgEncoder_halftone E mx my v) \<le> 9
   \<and> (length (svgEncoder_halftone E mx my v) = 9) =
       (\<forall>i \<in> {0, 1, 2}. \<forall>j \<in> {0, 1, 2}. \<not> elided (svgEncoder_subcolor E mx my v i j))
   \<and> svgEncoder_subcolor E mx my v 1 1 = translateToRGBA E v
   \<and> svgEncoder_subcell (E\<lparr>halftoneColor := hc\<rparr>) mx my v 1 1 = svgEncoder_subcell E mx my v 1 1
   \<and> (hasHalftone E \<and> QType v = QRType_DATA \<and> IsSet v \<longrightarrow>
        Svgo_module E mx my v =
          (if Svgo_overlapsLogo E (mx * qrBlockWidth E + borderWidths E ! 3)
                (my * qrBlockWidth E + borderWidths E ! 0)
           then [] else Svgo_halftone E mx my v))
   \<and> Svgo_halftone E mx my v =
       Svgo_subcell E mx my v 0 0 @ Svgo_subcell E mx my v 0 1 @ Svgo_subcell E mx my v 0 2 @
       Svgo_subcell E mx my v 1 0 @ Svgo_subcell E mx my v 1 1 @ Svgo_subcell E mx my v 1 2 @
       Svgo_subcell E mx my v 2 0 @ Svgo_subcell E mx my v 2 1 @ Svgo_subcell E mx my v 2 2
   \<and> Svgo_subcell E mx my v i j =
       (if Svgo_elided E mx my i j then []
        else [(\<lparr>dc_x = of_int (mx * qrBlockWidth E + borderWidths E ! 3 +
                                trunc (of_int i * (of_int (qrBlockWidth E) / 3))),
                 dc_y = of_int (my * qrBlockWidth E + borderWidths E ! 0 +
                                trunc (of_int j * (of_int (qrBlockWidth E) / 3))),
                 dc_w = trunc (of_int (qrBlockWidth E) / 3),
                 dc_h = trunc (of_int (qrBlockWidth E) / 3),
                 dc_color = Black, dc_neighbours = 0\<rparr>,
               QRType_DATA, Svgo_fill E mx my v i j)])
   \<and> length (Svgo_halftone E mx my v) \<le> 9
   \<and> (length (Svgo_halftone E mx my v) = 9) =
       (\<forall>i \<in> {0, 1, 2}. \<forall>j \<in> {0, 1, 2}. \<not> Svgo_elided E mx my i j)
   \<and> \<not> Svgo_elided E mx my 1 1
   \<and> Svgo_fill E mx my v 1 1 =
       (if gradientSet E then ''url(#qrGradient)'' else hexRGB (translateToRGBA E v))
   \<and> Svgo_subcell (E\<lparr>halftoneColor := hc\<rparr>) mx my v 1 1 = Svgo_subcell E mx my v 1 1"
proof (intro conjI impI)
  assume "hasHalftone E \<and> QType v = QRType_DATA"
  then show "svgEncoder_module E mx my v =
        (if overlapsLogo E mx my then [] else svgEncoder_halftone E mx my v)"
    using svgEncoder_module_halftone [of E v mx my] by blast
next
  show "svgEncoder_halftone E mx my v =
       svgEncoder_subcell E mx my v 0 0 @ svgEncoder_subcell E mx my v 0 1 @
       svgEncoder_subcell E mx my v 0 2 @ svgEncoder_subcell E mx my v 1 0 @
       svgEncoder_subcell E mx my v 1 1 @ svgEncoder_subcell E mx my v 1 2 @
       svgEncoder_subcell E mx my v 2 0 @ svgEncoder_subcell E mx my v 2 1 @
       svgEncoder_subcell E mx my v 2 2"
    by (rule svgEncoder_halftone_cells)
next
  show "svgEncoder_subcell E mx my v i j =
       (if elided (svgEncoder_subcolor E mx my v i j) then []
        else [''<g fill='' @ dq @ hexRGB (svgEncoder_subcolor E mx my v i j) @ dq @ ''>'' @
              GenerateSVGPath E
                \<lparr>dc_x = of_int (mx * qrBlockWidth E + borderWidths E ! 3) +
                         of_int i * (of_int (qrBlockWidth E) / 3),
                 dc_y = of_int (my * qrBlockWidth E + borderWidths E ! 0) +
                         of_int j * (of_int (qrBlockWidth E) / 3),
                 dc_w = trunc (of_int (qrBlockWidth E) / 3),
                 dc_h = trunc (of_int (qrBlockWidth E) / 3),
                 dc_color = svgEncoder_subcolor E mx my v i j,
                 dc_neighbours = getNeighbours E mx my\<rparr> False @
              ''</g>'' @ bsn])"
    by (rule svgEncoder_subcell_eq)
next
  show "length (svgEncoder_halftone E mx my v) \<le> 9"
    by (rule svgEncoder_halftone_count(1))
next
  show "(length (svgEncoder_halftone E mx my v) = 9) =
       (\<forall>i \<in> {0, 1, 2}. \<forall>j \<in> {0, 1, 2}. \<not> elided (svgEncoder_subcolor E mx my v i j))"
    by (rule svgEncoder_halftone_count(2))
next
  show "svgEncoder_subcolor E mx my v 1 1 = translateToRGBA E v"
    by (simp add: svgEncoder_subcolor_def)
next
  show "svgEncoder_subcell (E\<lparr>halftoneColor := hc\<rparr>) mx my v 1 1 = svgEncoder_subcell E mx my v 1 1"
    by (simp add: svgEncoder_subcell_def moduleContext_def Let_def)
next
  assume "hasHalftone E \<and> QType v = QRType_DATA \<and> IsSet v"
  then show "Svgo_module E mx my v =
          (if Svgo_overlapsLogo E (mx * qrBlockWidth E + borderWidths E ! 3)
                (my * qrBlockWidth E + borderWidths E ! 0)
           then [] else Svgo_halftone E mx my v)"
    using Svgo_module_halftone [of E v mx my] by blast
next
  show "Svgo_halftone E mx my v =
       Svgo_subcell E mx my v 0 0 @ Svgo_subcell E mx my v 0 1 @ Svgo_subcell E mx my v 0 2 @
       Svgo_subcell E mx my v 1 0 @ Svgo_subcell E mx my v 1 1 @ Svgo_subcell E mx my v 1 2 @
       Svgo_subcell E mx my v 2 0 @ Svgo_subcell E mx my v 2 1 @ Svgo_subcell E mx my v 2 2"
    by (rule Svgo_halftone_cells)
next
  show "Svgo_subcell E mx my v i j =
       (if Svgo_elided E mx my i j then []
        else [(\<lparr>dc_x = of_int (mx * qrBlockWidth E + borderWidths E ! 3 +
                                trunc (of_int i * (of_int (qrBlockWidth E) / 3))),
                 dc_y = of_int (my * qrBlockWidth E + borderWidths E ! 0 +
                                trunc (of_int j * (of_int (qrBlockWidth E) / 3))),
                 dc_w = trunc (of_int (qrBlockWidth E) / 3),
                 dc_h = trunc (of_int (qrBlockWidth E) / 3),
                 dc_color = Black, dc_neighbours = 0\<rparr>,
               QRType_DATA, Svgo_fill E mx my v i j)])"
    by (rule Svgo_subcell_eq)
next
  show "length (Svgo_halftone E mx my v) \<le> 9"
    by (rule Svgo_halftone_count(1))
next
  show "(length (Svgo_halftone E mx my v) = 9) =
       (\<forall>i \<in> {0, 1, 2}. \<forall>j \<in> {0, 1, 2}. \<not> Svgo_elided E mx my i j)"
    by (rule Svgo_halftone_count(2))
next
  show "\<not> Svgo_elided E mx my 1 1"
    by (simp add: Svgo_elided_def)
next
  show "Svgo_fill E mx my v 1 1 =
       (if gradientSet E then ''url(#qrGradient)'' else hexRGB (translateToRGBA E v))"
    by (simp add: Svgo_fill_def)
next
  show "Svgo_subcell (E\<lparr>halftoneColor := hc\<rparr>) mx my v 1 1 = Svgo_subcell E mx my v 1 1"
    by (simp add: Svgo_subcell_def Let_def)
qed

text \<open>
  With black samples a set DATA module gets nine draws in both encoders; with transparent
  samples the centre is still drawn in black, and \<^verbatim>\<open>SvgoEncoder\<close> makes no draw for the
  corner cell.
\<close>

theorem halftone_subcells_witness:
  "length (svgEncoder_module (sampleEnv (\<lambda>px py. Black)) 2 3 \<lparr>IsSet = True, QType = QRType_DATA\<rparr>) = 9
   \<and> length (Svgo_module (sampleEnv (\<lambda>px py. Black)) 2 3 \<lparr>IsSet = True, QType = QRType_DATA\<rparr>) = 9
   \<and> svgEncoder_subcell (sampleEnv (\<lambda>px py. Transparent)) 2 3 \<lparr>IsSet = True, QType = QRType_DATA\<rparr> 1 1 =
       [''<g fill='' @ dq @ ''#000000'' @ dq @ ''><rect/></g>'' @ bsn]
   \<and> Svgo_subcell (sampleEnv (\<lambda>px py. Transparent)) 2 3 \<lparr>IsSet = True, QType = QRType_DATA\<rparr> 0 0 = []"
proof (intro conjI)
  let ?v = "\<lparr>IsSet = True, QType = QRType_DATA\<rparr>"
  let ?B = "sampleEnv (\<lambda>px py. Black)"
  let ?T = "sampleEnv (\<lambda>px py. Transparent)"
  note B = halftone_subcells [of ?B ?v 2 3 1 1 "\<lambda>px py. Black"]
  note T = halftone_subcells [of ?T ?v 2 3 1 1 "\<lambda>px py. Black"]
  note T0 = halftone_subcells [of ?T ?v 2 3 0 0 "\<lambda>px py. Black"]
  have pre: "hasHalftone ?B" "QType ?v = QRType_DATA" "IsSet ?v" "\<not> overlapsLogo ?B 2 3"
    "\<not> Svgo_overlapsLogo ?B (2 * qrBlockWidth ?B + borderWidths ?B ! 3)
         (3 * qrBlockWidth ?B + borderWidths ?B ! 0)"
    by (simp_all add: sampleEnv_def overlapsLogo_def Svgo_overlapsLogo_def)
  have m: "svgEncoder_module ?B 2 3 ?v = svgEncoder_halftone ?B 2 3 ?v"
    using B [THEN conjunct1] pre by simp
  have kept: "\<forall>i \<in> {0, 1, 2}. \<forall>j \<in> {0, 1, 2}. \<not> elided (svgEncoder_subcolor ?B 2 3 ?v i j)"
    by (simp add: svgEncoder_subcolor_def sampleEnv_def elided_def Black_def shr8_def)
  note nine = B [THEN conjunct2, THEN conjunct2, THEN conjunct2, THEN conjunct2, THEN conjunct1]
  show "length (svgEncoder_module ?B 2 3 ?v) = 9"
    unfolding m nine by (rule kept)
  have sm: "Svgo_module ?B 2 3 ?v = Svgo_halftone ?B 2 3 ?v"
    using B [THEN conjunct2, THEN conjunct2, THEN conjunct2, THEN conjunct2, THEN conjunct2,
        THEN conjunct2, THEN conjunct2, THEN conjunct1] pre by simp
  have skept: "\<forall>i \<in> {0, 1, 2}. \<forall>j \<in> {0, 1, 2}. \<not> Svgo_elided ?B 2 3 i j"
    by (simp add: Svgo_elided_def sampleEnv_def Black_def)
  note snine = B [THEN conjunct2, THEN conjunct2, THEN conjunct2, THEN conjunct2, THEN conjunct2,
        THEN conjunct2, THEN conjunct2, THEN conjunct2, THEN conjunct2, THEN conjunct2,
        THEN conjunct2, THEN conjunct1]
  show "length (Svgo_module ?B 2 3 ?v) = 9"
    unfolding sm snine by (rule skept)
  have opaque: "\<not> elided Black"
    by (simp add: elided_def Black_def shr8_def)
  have hex: "hexRGB Black = ''#000000''"
    by (simp add: hexRGB_def Black_def shr8_def hex2_def hexdigit_def)
  have sel: "svgEncoder_subcolor ?T 2 3 ?v 1 1 = Black"
    "GenerateSVGPath ?T = (\<lambda>c g. ''<rect/>'')"
    by (simp_all add: sampleEnv_def svgEncoder_subcolor_def)
  note centre = T [THEN conjunct2, THEN conjunct2, THEN conjunct1]
  show "svgEncoder_subcell ?T 2 3 ?v 1 1 =
       [''<g fill='' @ dq @ ''#000000'' @ dq @ ''><rect/></g>'' @ bsn]"
    unfolding centre sel by (simp add: opaque hex)
  have gone: "Svgo_elided ?T 2 3 0 0"
    by (simp add: Svgo_elided_def sampleEnv_def Transparent_def)
  note corner = T0 [THEN conjunct2, THEN conjunct2, THEN conjunct2, THEN conjunct2, THEN conjunct2,
        THEN conjunct2, THEN conjunct2, THEN conjunct2, THEN conjunct2, THEN conjunct1]
  show "Svgo_subcell ?T 2 3 ?v 0 0 = []"
    unfolding corner using gone by simp
qed

text \<open>
  C7 as stated fails when a halftone sample is transparent (or pure white): with every
  sample transparent, a set DATA module produces one draw, the centre, in both encoders.
\<close>

theorem halftone_nine_counterexample:
  "length (svgEncoder_module (sampleEnv (\<lambda>px py. Transparent)) 2 3
      \<lparr>IsSet = True, QType = QRType_DATA\<rparr>) = 1
   \<and> length (Svgo_module (sampleEnv (\<lambda>px py. Transparent)) 2 3
      \<lparr>IsSet = True, QType = QRType_DATA\<rparr>) = 1"
  by (simp add: Svgo_module_def Svgo_subcell_def Svgo_overlapsLogo_def svgEncoder_module_def
      overlapsLogo_def svgEncoder_halftone_def svgEncoder_subcell_def moduleContext_def
      sampleEnv_def Black_def Transparent_def shr8_def Let_def)

subsection \<open>Gradient endpoints\<close>













subsection \<open>Binarization\<close>

lemma fold_row_pixels:
  fixes upd :: "GrayImage \<Rightarrow> int \<Rightarrow> GrayImage"
  assumes rect: "\<And>g j. GrayRect (upd g j) = GrayRect g"
    and pix: "\<And>g j p. GrayPix (upd g j) p =
        (if p = (j, i) \<and> PointIn j i (GrayRect g) then F j (GrayPix g (j, i)) else GrayPix g p)"
    and "distinct js"
  shows "GrayRect (foldl upd g js) = GrayRect g \<and>
         GrayPix (foldl upd g js) (px, py) =
           (if py = i \<and> px \<in> set js \<and> PointIn px py (GrayRect g)
            then F px (GrayPix g (px, py)) else GrayPix g (px, py))"
  using \<open>distinct js\<close>
proof (induction js arbitrary: g)
  case Nil
  then show ?case by simp
next
  case (Cons j js)
  from Cons.prems have d: "distinct js" and nj: "j \<notin> set js"
    by simp_all
  note ih = Cons.IH [OF d, of "upd g j"]
  show ?case
    using ih nj by (auto simp: rect pix)
qed

lemma fold_grid_pixels:
  fixes upd :: "int \<Rightarrow> GrayImage \<Rightarrow> int \<Rightarrow> GrayImage"
  assumes rect: "\<And>i g j. GrayRect (upd i g j) = GrayRect g"
    and pix: "\<And>i g j p. GrayPix (upd i g j) p =
        (if p = (j, i) \<and> PointIn j i (GrayRect g) then F j i (GrayPix g (j, i)) else GrayPix g p)"
    and js: "distinct js"
    and "distinct is"
  shows "GrayRect (foldl (\<lambda>g i. foldl (upd i) g js) g is) = GrayRect g \<and>
         GrayPix (foldl (\<lambda>g i. foldl (upd i) g js) g is) (px, py) =
           (if py \<in> set is \<and> px \<in> set js \<and> PointIn px py (GrayRect g)
            then F px py (GrayPix g (px, py)) else GrayPix g (px, py))"
  using \<open>distinct is\<close>
proof (induction "is" arbitrary: g)
  case Nil
  then show ?case by simp
next
  case (Cons i "is")
  from Cons.prems have d: "distinct is" and ni: "i \<notin> set is"
    by simp_all
  note row = fold_row_pixels [of "upd i" i "\<lambda>j. F j i", OF rect pix js]
  note ih = Cons.IH [OF d, of "foldl (upd i) g js"]
  show ?case
    using ih ni row [of g px py] row [of g "0" "0", THEN conjunct1] by auto
qed

lemma grayModel_White: "grayModel White = 255"
  by (simp add: grayModel_def White_def)

lemma grayModel_Black: "grayModel Black = 0"
  by (simp add: grayModel_def Black_def)

lemma Gray_pixels:
  "GrayRect (Gray src) = Bounds src \<and>
   GrayPix (Gray src) (px, py) =
     (if 0 \<le> py \<and> py < Max_Y (Bounds src) - Min_Y (Bounds src) \<and>
         0 \<le> px \<and> px < Max_X (Bounds src) - Min_X (Bounds src) \<and>
         PointIn px py (Bounds src)
      then grayModel (At src px py) else 0)"
proof -
  have "GrayRect (foldl (\<lambda>g i. foldl (\<lambda>g j. SetGray g j i (grayModel (At src j i))) g
            [0 .. Max_X (Bounds src) - Min_X (Bounds src) - 1])
          (NewGray (Bounds src)) [0 .. Max_Y (Bounds src) - Min_Y (Bounds src) - 1]) =
        GrayRect (NewGray (Bounds src)) \<and>
    GrayPix (foldl (\<lambda>g i. foldl (\<lambda>g j. SetGray g j i (grayModel (At src j i))) g
            [0 .. Max_X (Bounds src) - Min_X (Bounds src) - 1])
          (NewGray (Bounds src)) [0 .. Max_Y (Bounds src) - Min_Y (Bounds src) - 1]) (px, py) =
      (if py \<in> set [0 .. Max_Y (Bounds src) - Min_Y (Bounds src) - 1] \<and>
          px \<in> set [0 .. Max_X (Bounds src) - Min_X (Bounds src) - 1] \<and>
          PointIn px py (GrayRect (NewGray (Bounds src)))
       then grayModel (At src px py) else GrayPix (NewGray (Bounds src)) (px, py))"
    by (rule fold_grid_pixels [of "\<lambda>i g j. SetGray g j i (grayModel (At src j i))"
          "\<lambda>j i old. grayModel (At src j i)"])
       (auto simp: SetGray_def)
  then show ?thesis
    by (simp add: Gray_def Let_def NewGray_def)
qed

text \<open>
  On an image whose rectangle starts at the origin, binarization without colour
  preservation gives an image of the same rectangle whose pixel is 255 (white) exactly
  where the source's grayscale value is above the threshold, and 0 (black) elsewhere.
\<close>

lemma Binaryzation_at_origin:
  assumes "Min_X (Bounds src) = 0" "Min_Y (Bounds src) = 0"
  shows "\<exists>g. Binaryzation src t False = GrayResult g \<and> GrayRect g = Bounds src \<and>
           (\<forall>px py. PointIn px py (Bounds src) \<longrightarrow>
              GrayAt g px py = (if grayModel (At src px py) > t then 255 else 0))"
proof -
  let ?W = "Max_X (Bounds src) - Min_X (Bounds src)"
  let ?H = "Max_Y (Bounds src) - Min_Y (Bounds src)"
  let ?upd = "\<lambda>i g j. if GrayAt g j i > t then GraySet g j i White else GraySet g j i Black"
  let ?g = "foldl (\<lambda>g i. foldl (?upd i) g [0 .. ?W - 1]) (Gray src) [0 .. ?H - 1]"
  have "unat t < 256"
    using unsigned_less [of t, where ?'a = nat] by simp
  then have thr: "(if t < 0 \<or> t > 255 then 128 else t) = t"
    by (simp add: word_less_nat_alt)
  have res: "Binaryzation src t False = GrayResult ?g"
    unfolding Binaryzation_def Let_def thr by simp
  have grid: "GrayRect ?g = GrayRect (Gray src) \<and>
      GrayPix ?g (px, py) =
        (if py \<in> set [0 .. ?H - 1] \<and> px \<in> set [0 .. ?W - 1] \<and> PointIn px py (GrayRect (Gray src))
         then (if GrayPix (Gray src) (px, py) > t then 255 else 0)
         else GrayPix (Gray src) (px, py))" for px py
    by (rule fold_grid_pixels [of ?upd "\<lambda>j i old. if old > t then 255 else 0"])
       (auto simp: GraySet_def GrayAt_def grayModel_White grayModel_Black)
  have rect: "GrayRect ?g = Bounds src"
    using grid [of 0 0] Gray_pixels [of src 0 0] by simp
  have px: "GrayAt ?g px py = (if grayModel (At src px py) > t then 255 else 0)"
    if "PointIn px py (Bounds src)" for px py
  proof -
    from that assms have range: "py \<in> set [0 .. ?H - 1]" "px \<in> set [0 .. ?W - 1]"
      "0 \<le> py" "py < ?H" "0 \<le> px" "px < ?W"
      by (auto simp: PointIn_def)
    show ?thesis
      using grid [of px py] Gray_pixels [of src px py] range that
      by (simp add: GrayAt_def)
  qed
  show ?thesis
    using res rect px by blast
qed

text \<open>With colour preservation the result holds the source's colours, as 8-bit RGBA.\<close>

lemma Binaryzation_preserve:
  "\<exists>d. Binaryzation src t True = RGBAResult d \<and> RGBARect d = Bounds src \<and>
     (\<forall>px py. PointIn px py (Bounds src) \<longrightarrow>
        RGBAPix d (px, py) =
          (shr8 (red (At src px py)), shr8 (green (At src px py)),
           shr8 (blue (At src px py)), shr8 (alpha (At src px py))))"
  by (simp add: Binaryzation_def draw_Src_def NewRGBA_def Let_def)

text \<open>
  C9 fails on an image whose rectangle does not start at the origin: \<^verbatim>\<open>Gray\<close> and
  \<^verbatim>\<open>Binaryzation\<close> count \<open>i\<close> and \<open>j\<close> from 0 and use them as coordinates, without
  adding \<^verbatim>\<open>bounds.Min\<close>. For the white one-pixel image on the rectangle \<open>(1,0)-(2,1)\<close>
  and the threshold 60, the pixel's grayscale value is 255, above the threshold, and
  the output pixel is 0 (black), where the claim has white.
\<close>

theorem Binaryzation_shifted_bounds:
  "(\<exists>g. Binaryzation shiftedImage 60 False = GrayResult g \<and> GrayRect g = Bounds shiftedImage
        \<and> GrayAt g 1 0 = 0)
   \<and> PointIn 1 0 (Bounds shiftedImage)
   \<and> grayModel (At shiftedImage 1 0) = 255
   \<and> (60 :: 8 word) < 255"
  by (simp add: Binaryzation_def shiftedImage_def Gray_def Rect_def NewGray_def SetGray_def
      GraySet_def GrayAt_def PointIn_def grayModel_White Let_def)

lemma Binaryzation_uniform_gray:
  "\<exists>g. Binaryzation (uniformImage 2 2 \<lparr>red = 0x3D3D, green = 0x3D3D, blue = 0x3D3D, alpha = 0xffff\<rparr>)
       60 False = GrayResult g \<and> GrayAt g 1 1 = 255"
  "\<exists>g. Binaryzation (uniformImage 2 2 \<lparr>red = 0x3C3C, green = 0x3C3C, blue = 0x3C3C, alpha = 0xffff\<rparr>)
       60 False = GrayResult g \<and> GrayAt g 1 1 = 0"
proof -
  have b: "Min_X (Bounds (uniformImage 2 2 c)) = 0" "Min_Y (Bounds (uniformImage 2 2 c)) = 0"
    "PointIn 1 1 (Bounds (uniformImage 2 2 c))" "At (uniformImage 2 2 c) 1 1 = c" for c
    by (simp_all add: uniformImage_def Rect_def PointIn_def)
  have g: "grayModel \<lparr>red = 0x3D3D, green = 0x3D3D, blue = 0x3D3D, alpha = 0xffff\<rparr> = 61"
    "grayModel \<lparr>red = 0x3C3C, green = 0x3C3C, blue = 0x3C3C, alpha = 0xffff\<rparr> = 60"
    by (simp_all add: grayModel_def)
  show "\<exists>g. Binaryzation (uniformImage 2 2 \<lparr>red = 0x3D3D, green = 0x3D3D, blue = 0x3D3D, alpha = 0xffff\<rparr>)
       60 False = GrayResult g \<and> GrayAt g 1 1 = 255"
    using Binaryzation_at_origin [OF b(1) b(2), of _ 60] b(3) b(4) g by fastforce
  show "\<exists>g. Binaryzation (uniformImage 2 2 \<lparr>red = 0x3C3C, green = 0x3C3C, blue = 0x3C3C, alpha = 0xffff\<rparr>)
       60 False = GrayResult g \<and> GrayAt g 1 1 = 0"
    using Binaryzation_at_origin [OF b(1) b(2), of _ 60] b(3) b(4) g by fastforce
qed

subsection \<open>Loops that may panic\<close>

lemma forEach_inv:
  assumes step: "\<And>s k S. k \<in> set ks \<Longrightarrow> I S s \<Longrightarrow> \<exists>s'. f s k = Some s' \<and> I (insert k S) s'"
    and "I S s"
  shows "\<exists>s'. forEach ks f s = Some s' \<and> I (S \<union> set ks) s'"
  using assms
proof (induction ks arbitrary: s S)
  case Nil
  then show ?case by simp
next
  case (Cons k ks)
  from Cons.prems(1) [of k S s] Cons.prems(2)
  obtain s1 where s1: "f s k = Some s1" "I (insert k S) s1"
    by auto
  have "\<exists>s'. forEach ks f s1 = Some s' \<and> I (insert k S \<union> set ks) s'"
    by (rule Cons.IH [OF _ s1(2)]) (rule Cons.prems(1), simp_all)
  then show ?case
    using s1(1) by simp
qed
subsection \<open>Indices of the visited slice\<close>

lemma getIndex_range:
  assumes "PointIn px py b"
  shows "0 \<le> getIndex b px py" and "getIndex b px py < Dx b * Dy b"
proof -
  define u v W H where "u = px - Min_X b" and "v = py - Min_Y b" and "W = Dx b" and "H = Dy b"
  from assms have u: "0 \<le> u" "u < W" and v: "0 \<le> v" "v < H"
    by (auto simp: PointIn_def u_def v_def W_def H_def Dx_def Dy_def)
  have idx: "getIndex b px py = v * W + u"
    by (simp add: getIndex_def u_def v_def W_def)
  have "0 \<le> v * W" using u v by simp
  then show "0 \<le> getIndex b px py" using u idx by simp
  have "v + 1 \<le> H" using v by simp
  then have "(v + 1) * W \<le> H * W"
    using u by (intro mult_right_mono) auto
  then have "v * W + u < H * W"
    using u by (simp add: algebra_simps)
  then show "getIndex b px py < Dx b * Dy b"
    by (simp add: idx W_def H_def mult.commute)
qed

lemma getIndex_inj:
  assumes "PointIn px py b" "PointIn qx qy b" "getIndex b px py = getIndex b qx qy"
  shows "px = qx \<and> py = qy"
proof -
  define W where "W = Dx b"
  define u v u' v' where "u = px - Min_X b" and "v = py - Min_Y b"
    and "u' = qx - Min_X b" and "v' = qy - Min_Y b"
  from assms have r: "0 \<le> u" "u < W" "0 \<le> u'" "u' < W"
    by (auto simp: PointIn_def u_def u'_def W_def Dx_def)
  from assms(3) have eq: "v * W + u = v' * W + u'"
    by (simp add: getIndex_def u_def v_def u'_def v'_def W_def)
  have "(v * W + u) mod W = u" "(v' * W + u') mod W = u'"
    using r by simp_all
  with eq have uu: "u = u'" by simp
  with eq r have "v = v'" by simp
  with uu show ?thesis
    by (simp add: u_def v_def u'_def v'_def)
qed

lemma isVisited_in:
  assumes "PointIn px py b" "length vis = nat (Dx b * Dy b)"
  shows "isVisited b vis px py = Some (flagged b vis px py)"
proof -
  note r = getIndex_range [OF assms(1)]
  have "getIndex b px py < int (length vis)"
    using r assms(2) by simp
  then show ?thesis
    using r(1) by (simp add: isVisited_def readAt_def flagged_def getIndex_def)
qed

lemma writeAt_in:
  assumes "PointIn qx qy b" "length vis = nat (Dx b * Dy b)"
  shows "\<exists>vis'. writeAt vis (getIndex b qx qy) = Some vis' \<and> length vis' = length vis \<and>
           (\<forall>px py. PointIn px py b \<longrightarrow>
              flagged b vis' px py = (flagged b vis px py \<or> (px = qx \<and> py = qy)))"
proof -
  note r = getIndex_range [OF assms(1)]
  have lt: "getIndex b qx qy < int (length vis)"
    using r assms(2) by simp
  have "flagged b (vis[nat (getIndex b qx qy) := True]) px py =
        (flagged b vis px py \<or> (px = qx \<and> py = qy))" if p: "PointIn px py b" for px py
  proof (cases "getIndex b px py = getIndex b qx qy")
    case True
    with getIndex_inj [OF p assms(1)] have "px = qx \<and> py = qy" by simp
    then show ?thesis
      using lt r(1) by (simp add: flagged_def)
  next
    case False
    then have ne: "nat (getIndex b px py) \<noteq> nat (getIndex b qx qy)"
      using getIndex_range(1) [OF p] r(1) by simp
    have "\<not> (px = qx \<and> py = qy)"
      using False by auto
    then show ?thesis
      using ne by (auto simp: flagged_def)
  qed
  then show ?thesis
    using lt r(1) by (simp add: writeAt_def)
qed
subsection \<open>The greedy expansion loops\<close>

declare expandW.simps [simp del] matchRow.simps [simp del] expandH.simps [simp del]

lemma expandW_spec:
  assumes "length vis = nat (Dx b * Dy b)" "Min_Y b \<le> py" "py < Max_Y b" "Min_X b \<le> px"
    and "1 \<le> w" "px + w \<le> Max_X b"
    and "\<forall>k. 0 \<le> k \<and> k < w \<longrightarrow> \<not> flagged b vis (px + k) py \<and> getPixel img (px + k) py = c"
  shows "\<exists>w'. expandW img b vis c px py w = Some w' \<and> w \<le> w' \<and> px + w' \<le> Max_X b \<and>
           (\<forall>k. 0 \<le> k \<and> k < w' \<longrightarrow> \<not> flagged b vis (px + k) py \<and> getPixel img (px + k) py = c)"
  using assms
proof (induction img b vis c px py w rule: expandW.induct)
  case (1 img b vis c px py w)
  show ?case
  proof (cases "px + w < Max_X b")
    case False
    then have "expandW img b vis c px py w = Some w"
      by (subst expandW.simps) simp
    then show ?thesis
      using "1.prems" by auto
  next
    case True
    then have pin: "PointIn (px + w) py b"
      using "1.prems" by (simp add: PointIn_def)
    note vis = isVisited_in [OF pin "1.prems"(1)]
    show ?thesis
    proof (cases "flagged b vis (px + w) py \<or> getPixel img (px + w) py \<noteq> c")
      case True
      then have "expandW img b vis c px py w = Some w"
        using \<open>px + w < Max_X b\<close> vis by (subst expandW.simps) auto
      then show ?thesis
        using "1.prems" by auto
    next
      case False
      then have nf: "\<not> flagged b vis (px + w) py" and col: "getPixel img (px + w) py = c"
        by simp_all
      have step: "expandW img b vis c px py w = expandW img b vis c px py (w + 1)"
        using \<open>px + w < Max_X b\<close> vis nf col by (subst expandW.simps) simp
      have all: "\<forall>k. 0 \<le> k \<and> k < w + 1 \<longrightarrow>
          \<not> flagged b vis (px + k) py \<and> getPixel img (px + k) py = c"
      proof (intro allI impI)
        fix k assume k: "0 \<le> k \<and> k < w + 1"
        show "\<not> flagged b vis (px + k) py \<and> getPixel img (px + k) py = c"
        proof (cases "k = w")
          case True
          then show ?thesis using nf col by simp
        next
          case False
          with k have "0 \<le> k \<and> k < w" by simp
          then show ?thesis using "1.prems"(7) by blast
        qed
      qed
      have nc: "\<not> getPixel img (px + w) py \<noteq> c"
        using col by simp
      have w1: "1 \<le> w + 1" "px + (w + 1) \<le> Max_X b"
        using \<open>px + w < Max_X b\<close> "1.prems"(5) by simp_all
      from "1.IH" [OF \<open>px + w < Max_X b\<close> vis nf nc "1.prems"(1-4) w1 all]
      obtain w' where w': "expandW img b vis c px py (w + 1) = Some w'" "w + 1 \<le> w'"
        "px + w' \<le> Max_X b"
        "\<forall>k. 0 \<le> k \<and> k < w' \<longrightarrow> \<not> flagged b vis (px + k) py \<and> getPixel img (px + k) py = c"
        by blast
      from w'(2) have "w \<le> w'" by simp
      with w'(1,3,4) show ?thesis
        unfolding step by blast
    qed
  qed
qed

lemma matchRow_spec:
  assumes "length vis = nat (Dx b * Dy b)" "Min_Y b \<le> py + h" "py + h < Max_Y b"
    and "Min_X b \<le> px" "px + w \<le> Max_X b" "0 \<le> k"
  shows "\<exists>m. matchRow img b vis c px py h w k = Some m \<and>
           (m \<longrightarrow> (\<forall>k'. k \<le> k' \<and> k' < w \<longrightarrow>
              \<not> flagged b vis (px + k') (py + h) \<and> getPixel img (px + k') (py + h) = c))"
  using assms
proof (induction img b vis c px py h w k rule: matchRow.induct)
  case (1 img b vis c px py h w k)
  show ?case
  proof (cases "k < w")
    case False
    then have "matchRow img b vis c px py h w k = Some True"
      by (subst matchRow.simps) simp
    moreover have "\<forall>k'. k \<le> k' \<and> k' < w \<longrightarrow>
        \<not> flagged b vis (px + k') (py + h) \<and> getPixel img (px + k') (py + h) = c"
      using False by auto
    ultimately show ?thesis
      by blast
  next
    case True
    then have pin: "PointIn (px + k) (py + h) b"
      using "1.prems" by (simp add: PointIn_def)
    note vis = isVisited_in [OF pin "1.prems"(1)]
    show ?thesis
    proof (cases "flagged b vis (px + k) (py + h) \<or> getPixel img (px + k) (py + h) \<noteq> c")
      case True
      then have "matchRow img b vis c px py h w k = Some False"
        using \<open>k < w\<close> vis by (subst matchRow.simps) auto
      then show ?thesis by blast
    next
      case False
      then have nf: "\<not> flagged b vis (px + k) (py + h)"
        and col: "getPixel img (px + k) (py + h) = c"
        by simp_all
      have step: "matchRow img b vis c px py h w k = matchRow img b vis c px py h w (k + 1)"
        using \<open>k < w\<close> vis nf col by (subst matchRow.simps) simp
      have nc: "\<not> getPixel img (px + k) (py + h) \<noteq> c"
        using col by simp
      have k1: "0 \<le> k + 1"
        using "1.prems"(6) by simp
      from "1.IH" [OF \<open>k < w\<close> vis nf nc "1.prems"(1-5) k1]
      obtain m where m: "matchRow img b vis c px py h w (k + 1) = Some m"
        "m \<longrightarrow> (\<forall>k'. k + 1 \<le> k' \<and> k' < w \<longrightarrow>
              \<not> flagged b vis (px + k') (py + h) \<and> getPixel img (px + k') (py + h) = c)"
        by blast
      have "m \<longrightarrow> (\<forall>k'. k \<le> k' \<and> k' < w \<longrightarrow>
              \<not> flagged b vis (px + k') (py + h) \<and> getPixel img (px + k') (py + h) = c)"
      proof (intro impI allI)
        fix k' assume "m" and k': "k \<le> k' \<and> k' < w"
        show "\<not> flagged b vis (px + k') (py + h) \<and> getPixel img (px + k') (py + h) = c"
        proof (cases "k' = k")
          case True
          then show ?thesis using nf col by simp
        next
          case False
          with k' have "k + 1 \<le> k' \<and> k' < w" by simp
          then show ?thesis using m(2) \<open>m\<close> by blast
        qed
      qed
      with m(1) show ?thesis
        unfolding step by blast
    qed
  qed
qed

lemma expandH_spec:
  assumes "length vis = nat (Dx b * Dy b)" "Min_Y b \<le> py" "Min_X b \<le> px" "px + w \<le> Max_X b"
    and "1 \<le> h" "py + h \<le> Max_Y b"
    and "\<forall>k l. 0 \<le> k \<and> k < w \<and> 0 \<le> l \<and> l < h \<longrightarrow>
           \<not> flagged b vis (px + k) (py + l) \<and> getPixel img (px + k) (py + l) = c"
  shows "\<exists>h'. expandH img b vis c px py w h = Some h' \<and> h \<le> h' \<and> py + h' \<le> Max_Y b \<and>
           (\<forall>k l. 0 \<le> k \<and> k < w \<and> 0 \<le> l \<and> l < h' \<longrightarrow>
              \<not> flagged b vis (px + k) (py + l) \<and> getPixel img (px + k) (py + l) = c)"
  using assms
proof (induction img b vis c px py w h rule: expandH.induct)
  case (1 img b vis c px py w h)
  show ?case
  proof (cases "py + h < Max_Y b")
    case False
    then have "expandH img b vis c px py w h = Some h"
      by (subst expandH.simps) simp
    then show ?thesis
      using "1.prems" by auto
  next
    case True
    have "Min_Y b \<le> py + h"
      using "1.prems" by simp
    from matchRow_spec [OF "1.prems"(1) this True "1.prems"(3,4), of 0 img c]
    obtain m where m: "matchRow img b vis c px py h w 0 = Some m"
      "m \<longrightarrow> (\<forall>k'. 0 \<le> k' \<and> k' < w \<longrightarrow>
              \<not> flagged b vis (px + k') (py + h) \<and> getPixel img (px + k') (py + h) = c)"
      by auto
    show ?thesis
    proof (cases m)
      case False
      then have "expandH img b vis c px py w h = Some h"
        using True m(1) by (subst expandH.simps) simp
      then show ?thesis
        using "1.prems" by auto
    next
      case mt: True
      have step: "expandH img b vis c px py w h = expandH img b vis c px py w (h + 1)"
        using True m(1) mt by (subst expandH.simps) simp
      have all: "\<forall>k l. 0 \<le> k \<and> k < w \<and> 0 \<le> l \<and> l < h + 1 \<longrightarrow>
           \<not> flagged b vis (px + k) (py + l) \<and> getPixel img (px + k) (py + l) = c"
      proof (intro allI impI)
        fix k l assume kl: "0 \<le> k \<and> k < w \<and> 0 \<le> l \<and> l < h + 1"
        show "\<not> flagged b vis (px + k) (py + l) \<and> getPixel img (px + k) (py + l) = c"
        proof (cases "l = h")
          case True
          then show ?thesis using m(2) mt kl by blast
        next
          case False
          with kl have "0 \<le> k \<and> k < w \<and> 0 \<le> l \<and> l < h" by simp
          then show ?thesis using "1.prems"(7) by blast
        qed
      qed
      have nm: "\<not> \<not> m"
        using mt by simp
      have h1: "1 \<le> h + 1" "py + (h + 1) \<le> Max_Y b"
        using True "1.prems"(5) by simp_all
      from "1.IH" [OF True m(1) nm "1.prems"(1-4) h1 all]
      obtain h' where h': "expandH img b vis c px py w (h + 1) = Some h'" "h + 1 \<le> h'"
        "py + h' \<le> Max_Y b"
        "\<forall>k l. 0 \<le> k \<and> k < w \<and> 0 \<le> l \<and> l < h' \<longrightarrow>
              \<not> flagged b vis (px + k) (py + l) \<and> getPixel img (px + k) (py + l) = c"
        by blast
      from h'(2) have "h \<le> h'" by simp
      with h'(1,3,4) show ?thesis
        unfolding step by blast
    qed
  qed
qed
lemma markRow_spec:
  assumes len: "length v = nat (Dx b * Dy b)"
    and inb: "Min_X b \<le> px" "px + w \<le> Max_X b" "Min_Y b \<le> py + dy" "py + dy < Max_Y b"
  shows "\<exists>v'. forEach [0 .. w - 1]
            (\<lambda>v dx. writeAt v ((py - Min_Y b + dy) * Dx b + (px - Min_X b) + dx)) v = Some v' \<and>
          length v' = length v \<and>
          (\<forall>qx qy. PointIn qx qy b \<longrightarrow>
             flagged b v' qx qy =
               (flagged b v qx qy \<or> (qy = py + dy \<and> px \<le> qx \<and> qx < px + w)))"
proof -
  define I where "I S v' =
    (length v' = length v \<and>
     (\<forall>qx qy. PointIn qx qy b \<longrightarrow>
        flagged b v' qx qy = (flagged b v qx qy \<or> (qy = py + dy \<and> qx - px \<in> S))))"
    for S :: "int set" and v' :: "bool list"
  have step: "\<exists>s'. writeAt s ((py - Min_Y b + dy) * Dx b + (px - Min_X b) + k) = Some s' \<and>
      I (insert k S) s'"
    if k: "k \<in> set [0 .. w - 1]" and I: "I S s" for s k S
  proof -
    from k inb have pin: "PointIn (px + k) (py + dy) b"
      by (simp add: PointIn_def)
    have idx: "(py - Min_Y b + dy) * Dx b + (px - Min_X b) + k = getIndex b (px + k) (py + dy)"
      by (simp add: getIndex_def algebra_simps)
    from I have ls: "length s = nat (Dx b * Dy b)"
      by (simp add: I_def len)
    from writeAt_in [OF pin ls] obtain s' where s':
      "writeAt s (getIndex b (px + k) (py + dy)) = Some s'" "length s' = length s"
      "\<forall>qx qy. PointIn qx qy b \<longrightarrow>
         flagged b s' qx qy = (flagged b s qx qy \<or> (qx = px + k \<and> qy = py + dy))"
      by blast
    have "I (insert k S) s'"
      unfolding I_def
    proof (intro conjI allI impI)
      show "length s' = length v"
        using s'(2) I by (simp add: I_def)
    next
      fix qx qy assume q: "PointIn qx qy b"
      have "(qx = px + k) = (qx - px = k)" by auto
      then show "flagged b s' qx qy =
          (flagged b v qx qy \<or> qy = py + dy \<and> qx - px \<in> insert k S)"
        using s'(3) q I unfolding I_def by auto
    qed
    with s'(1) show ?thesis
      unfolding idx by blast
  qed
  have "I {} v"
    by (simp add: I_def)
  from forEach_inv [of "[0 .. w - 1]" I
      "\<lambda>v dx. writeAt v ((py - Min_Y b + dy) * Dx b + (px - Min_X b) + dx)", OF step this]
  obtain v' where v': "forEach [0 .. w - 1]
      (\<lambda>v dx. writeAt v ((py - Min_Y b + dy) * Dx b + (px - Min_X b) + dx)) v = Some v'"
    "I ({} \<union> set [0 .. w - 1]) v'"
    by blast
  have "(qx - px \<in> {} \<union> set [0 .. w - 1]) = (px \<le> qx \<and> qx < px + w)" for qx
    by auto
  with v'(2) have "length v' = length v \<and>
      (\<forall>qx qy. PointIn qx qy b \<longrightarrow>
         flagged b v' qx qy = (flagged b v qx qy \<or> (qy = py + dy \<and> px \<le> qx \<and> qx < px + w)))"
    unfolding I_def by simp
  with v'(1) show ?thesis
    by blast
qed

lemma markVisited_spec:
  assumes len: "length vis = nat (Dx b * Dy b)"
    and inb: "Min_X b \<le> px" "px + w \<le> Max_X b" "Min_Y b \<le> py" "py + h \<le> Max_Y b"
  shows "\<exists>vis'. markVisited b vis px py w h = Some vis' \<and> length vis' = length vis \<and>
          (\<forall>qx qy. PointIn qx qy b \<longrightarrow>
             flagged b vis' qx qy =
               (flagged b vis qx qy \<or> (px \<le> qx \<and> qx < px + w \<and> py \<le> qy \<and> qy < py + h)))"
proof -
  define I where "I S v' =
    (length v' = length vis \<and>
     (\<forall>qx qy. PointIn qx qy b \<longrightarrow>
        flagged b v' qx qy =
          (flagged b vis qx qy \<or> (qy - py \<in> S \<and> px \<le> qx \<and> qx < px + w))))"
    for S :: "int set" and v' :: "bool list"
  let ?row = "\<lambda>v dy. forEach [0 .. w - 1]
      (\<lambda>v dx. writeAt v ((py - Min_Y b + dy) * Dx b + (px - Min_X b) + dx)) v"
  have step: "\<exists>s'. ?row s k = Some s' \<and> I (insert k S) s'"
    if k: "k \<in> set [0 .. h - 1]" and I: "I S s" for s k S
  proof -
    from k inb have rows: "Min_Y b \<le> py + k" "py + k < Max_Y b"
      by simp_all
    from I have ls: "length s = nat (Dx b * Dy b)"
      by (simp add: I_def len)
    from markRow_spec [OF ls inb(1,2) rows] obtain s' where s': "?row s k = Some s'"
      "length s' = length s"
      "\<forall>qx qy. PointIn qx qy b \<longrightarrow>
         flagged b s' qx qy = (flagged b s qx qy \<or> (qy = py + k \<and> px \<le> qx \<and> qx < px + w))"
      by blast
    have "I (insert k S) s'"
      unfolding I_def
    proof (intro conjI allI impI)
      show "length s' = length vis"
        using s'(2) I by (simp add: I_def)
    next
      fix qx qy assume q: "PointIn qx qy b"
      have "(qy = py + k) = (qy - py = k)" by auto
      then show "flagged b s' qx qy =
          (flagged b vis qx qy \<or> qy - py \<in> insert k S \<and> px \<le> qx \<and> qx < px + w)"
        using s'(3) q I unfolding I_def by auto
    qed
    with s'(1) show ?thesis
      by blast
  qed
  have "I {} vis"
    by (simp add: I_def)
  from forEach_inv [of "[0 .. h - 1]" I ?row, OF step this]
  obtain v' where v': "forEach [0 .. h - 1] ?row vis = Some v'" "I ({} \<union> set [0 .. h - 1]) v'"
    by blast
  have "(qy - py \<in> {} \<union> set [0 .. h - 1]) = (py \<le> qy \<and> qy < py + h)" for qy
    by auto
  with v'(2) have "length v' = length vis \<and>
      (\<forall>qx qy. PointIn qx qy b \<longrightarrow>
         flagged b v' qx qy =
           (flagged b vis qx qy \<or> (px \<le> qx \<and> qx < px + w \<and> py \<le> qy \<and> qy < py + h)))"
    unfolding I_def by auto
  moreover have "markVisited b vis px py w h = forEach [0 .. h - 1] ?row vis"
    by (simp add: markVisited_def Let_def)
  ultimately show ?thesis
    using v'(1) by auto
qed
subsection \<open>The greedy scan keeps its facts\<close>

lemma covers_mkRect:
  "covers (mkRect px py w h c) qx qy = (px \<le> qx \<and> qx < px + w \<and> py \<le> qy \<and> qy < py + h)"
  by (cases c) (simp add: covers_def mkRect_def)

lemma ri_color_mkRect: "ri_color (mkRect px py w h c) = c"
  by (cases c) (simp add: ri_color_def mkRect_def)

lemma mkRect_fields:
  "ri_x (mkRect px py w h c) = px" "ri_y (mkRect px py w h c) = py"
  "ri_width (mkRect px py w h c) = w" "ri_height (mkRect px py w h c) = h"
  by (cases c; simp add: mkRect_def)+

lemma rectOK_PointIn: "rectOK img b r \<Longrightarrow> covers r qx qy \<Longrightarrow> PointIn qx qy b"
  by (auto simp: rectOK_def covers_def PointIn_def)

lemma disjointRects_snoc:
  assumes "disjointRects rs" "\<And>r qx qy. r \<in> set rs \<Longrightarrow> covers r qx qy \<Longrightarrow> \<not> covers n qx qy"
  shows "disjointRects (rs @ [n])"
  unfolding disjointRects_def
proof (intro allI impI)
  fix i j qx qy
  assume a: "i < j \<and> j < length (rs @ [n]) \<and> covers ((rs @ [n]) ! i) qx qy"
  then have i: "i < length rs" by simp
  then have ri: "(rs @ [n]) ! i = rs ! i" by (simp add: nth_append)
  show "\<not> covers ((rs @ [n]) ! j) qx qy"
  proof (cases "j < length rs")
    case True
    then have "(rs @ [n]) ! j = rs ! j" by (simp add: nth_append)
    with assms(1) a ri True show ?thesis
      unfolding disjointRects_def by metis
  next
    case False
    with a have "j = length rs" by simp
    then have "(rs @ [n]) ! j = n" by simp
    moreover have "rs ! i \<in> set rs" using i by simp
    ultimately show ?thesis
      using assms(2) a ri by metis
  qed
qed

lemma greedyStep_inv:
  assumes inv: "greedyInv img b S st" and pin: "PointIn px py b"
  shows "\<exists>st'. greedyStep img b st px py = Some st' \<and> greedyInv img b (insert (px, py) S) st'"
proof -
  obtain vis rects where st: "st = (vis, rects)"
    by (cases st)
  from inv have len: "length vis = nat (Dx b * Dy b)"
    and V: "\<And>qx qy. PointIn qx qy b \<Longrightarrow> flagged b vis qx qy = (\<exists>r \<in> set rects. covers r qx qy)"
    and R: "\<And>r. r \<in> set rects \<Longrightarrow> rectOK img b r"
    and D: "disjointRects rects"
    and P: "\<And>p. p \<in> S \<Longrightarrow> PointIn (fst p) (snd p) b \<Longrightarrow>
              \<not> background (getPixel img (fst p) (snd p)) \<Longrightarrow> flagged b vis (fst p) (snd p)"
    unfolding greedyInv_def st by auto
  note vis = isVisited_in [OF pin len]
  define c where "c = getPixel img px py"
  show ?thesis
  proof (cases "flagged b vis px py \<or> background c")
    case True
    then have "greedyStep img b st px py = Some st"
      using vis by (auto simp: greedyStep_def st c_def Let_def)
    moreover have "greedyInv img b (insert (px, py) S) st"
      using inv True unfolding greedyInv_def st c_def by auto
    ultimately show ?thesis by blast
  next
    case False
    then have nf: "\<not> flagged b vis px py" and nb: "\<not> background c"
      by simp_all
    from pin have b0: "Min_Y b \<le> py" "py < Max_Y b" "Min_X b \<le> px" "px + 1 \<le> Max_X b"
      "py + 1 \<le> Max_Y b"
      by (simp_all add: PointIn_def)
    have one: "(1 :: int) \<le> 1" by simp
    have w0: "\<forall>k. 0 \<le> k \<and> k < 1 \<longrightarrow> \<not> flagged b vis (px + k) py \<and> getPixel img (px + k) py = c"
    proof (intro allI impI)
      fix k :: int assume "0 \<le> k \<and> k < 1"
      then have "k = 0" by simp
      then show "\<not> flagged b vis (px + k) py \<and> getPixel img (px + k) py = c"
        using nf c_def by simp
    qed
    from expandW_spec [OF len b0(1,2,3) one b0(4) w0]
    obtain w where w: "expandW img b vis c px py 1 = Some w" "1 \<le> w" "px + w \<le> Max_X b"
      "\<forall>k. 0 \<le> k \<and> k < w \<longrightarrow> \<not> flagged b vis (px + k) py \<and> getPixel img (px + k) py = c"
      by blast
    have h0: "\<forall>k l. 0 \<le> k \<and> k < w \<and> 0 \<le> l \<and> l < 1 \<longrightarrow>
        \<not> flagged b vis (px + k) (py + l) \<and> getPixel img (px + k) (py + l) = c"
    proof (intro allI impI)
      fix k l :: int assume kl: "0 \<le> k \<and> k < w \<and> 0 \<le> l \<and> l < 1"
      then have l: "l = 0" and k: "0 \<le> k \<and> k < w" by simp_all
      from w(4) k have "\<not> flagged b vis (px + k) py \<and> getPixel img (px + k) py = c"
        by blast
      then show "\<not> flagged b vis (px + k) (py + l) \<and> getPixel img (px + k) (py + l) = c"
        unfolding l by simp
    qed
    from expandH_spec [OF len b0(1,3) w(3) one b0(5) h0]
    obtain h where h: "expandH img b vis c px py w 1 = Some h" "1 \<le> h" "py + h \<le> Max_Y b"
      "\<forall>k l. 0 \<le> k \<and> k < w \<and> 0 \<le> l \<and> l < h \<longrightarrow>
         \<not> flagged b vis (px + k) (py + l) \<and> getPixel img (px + k) (py + l) = c"
      by blast
    from markVisited_spec [OF len b0(3) w(3) b0(1) h(3)]
    obtain vis' where m: "markVisited b vis px py w h = Some vis'" "length vis' = length vis"
      "\<And>qx qy. PointIn qx qy b \<Longrightarrow>
         flagged b vis' qx qy =
           (flagged b vis qx qy \<or> (px \<le> qx \<and> qx < px + w \<and> py \<le> qy \<and> qy < py + h))"
      by blast
    define n where "n = mkRect px py w h c"
    have res: "greedyStep img b st px py = Some (vis', rects @ [n])"
      using vis nf nb w(1) h(1) m(1) by (simp add: greedyStep_def st c_def [symmetric] n_def)
    have inside: "\<not> flagged b vis qx qy \<and> getPixel img qx qy = c" if "covers n qx qy" for qx qy
    proof -
      from that have "0 \<le> qx - px \<and> qx - px < w \<and> 0 \<le> qy - py \<and> qy - py < h"
        by (simp add: n_def covers_mkRect)
      with h(4) have "\<not> flagged b vis (px + (qx - px)) (py + (qy - py)) \<and>
          getPixel img (px + (qx - px)) (py + (qy - py)) = c"
        by blast
      then show ?thesis by simp
    qed
    have nOK: "rectOK img b n"
      unfolding rectOK_def
      using b0 w(2,3) h(2,3) nb inside
      by (simp add: n_def [symmetric] ri_color_mkRect [of px py w h c, folded n_def]
          mkRect_fields [of px py w h c, folded n_def])
    have "greedyInv img b (insert (px, py) S) (vis', rects @ [n])"
      unfolding greedyInv_def
    proof (intro conjI)
      show "length (fst (vis', rects @ [n])) = nat (Dx b * Dy b)"
        using m(2) len by simp
    next
      show "\<forall>qx qy. PointIn qx qy b \<longrightarrow>
          flagged b (fst (vis', rects @ [n])) qx qy =
          (\<exists>r \<in> set (snd (vis', rects @ [n])). covers r qx qy)"
        using m(3) V by (auto simp: n_def covers_mkRect)
    next
      show "\<forall>r \<in> set (snd (vis', rects @ [n])). rectOK img b r"
        using R nOK by auto
    next
      have "\<not> covers n qx qy" if "r \<in> set rects" "covers r qx qy" for r qx qy
      proof
        assume cn: "covers n qx qy"
        from rectOK_PointIn [OF R [OF that(1)] that(2)] have "PointIn qx qy b" .
        from V [OF this] that have "flagged b vis qx qy" by blast
        with inside [OF cn] show False by simp
      qed
      from disjointRects_snoc [OF D this]
      show "disjointRects (snd (vis', rects @ [n]))" by simp
    next
      have here: "flagged b vis' px py"
        using m(3) [OF pin] w(2) h(2) by simp
      have "flagged b vis' (fst p) (snd p)"
        if "p \<in> S" "PointIn (fst p) (snd p) b" "\<not> background (getPixel img (fst p) (snd p))" for p
        using P [OF that] m(3) [OF that(2)] by simp
      with here show "\<forall>p \<in> insert (px, py) S. PointIn (fst p) (snd p) b \<longrightarrow>
          \<not> background (getPixel img (fst p) (snd p)) \<longrightarrow>
          flagged b (fst (vis', rects @ [n])) (fst p) (snd p)"
        by auto
    qed
    with res show ?thesis by blast
  qed
qed
lemma greedyInv_init:
  assumes "0 \<le> Dx b * Dy b"
  shows "greedyInv img b {} (replicate (nat (Dx b * Dy b)) False, [])"
proof -
  have "\<not> flagged b (replicate (nat (Dx b * Dy b)) False) qx qy" if "PointIn qx qy b" for qx qy
  proof -
    from getIndex_range [OF that] have "nat (getIndex b qx qy) < nat (Dx b * Dy b)"
      by simp
    then show ?thesis
      by (simp add: flagged_def)
  qed
  then show ?thesis
    by (simp add: greedyInv_def disjointRects_def)
qed

lemma greedy_row:
  assumes inv: "greedyInv img b S st" and row: "Min_Y b \<le> py" "py < Max_Y b"
  shows "\<exists>st'. forEach [Min_X b .. Max_X b - 1] (\<lambda>st px. greedyStep img b st px py) st = Some st' \<and>
           greedyInv img b (S \<union> {p. snd p = py \<and> Min_X b \<le> fst p \<and> fst p < Max_X b}) st'"
proof -
  define I where "I T s = greedyInv img b (S \<union> (\<lambda>px. (px, py)) ` T) s"
    for T :: "int set" and s :: "bool list \<times> rectInfo list"
  have step: "\<exists>s'. greedyStep img b s k py = Some s' \<and> I (insert k T) s'"
    if k: "k \<in> set [Min_X b .. Max_X b - 1]" and I: "I T s" for s k T
  proof -
    from k row have pin: "PointIn k py b"
      by (simp add: PointIn_def)
    have eq: "insert (k, py) (S \<union> (\<lambda>px. (px, py)) ` T) = S \<union> (\<lambda>px. (px, py)) ` insert k T"
      by auto
    from greedyStep_inv [OF I [unfolded I_def] pin] show ?thesis
      unfolding I_def eq .
  qed
  have "I {} st"
    using inv by (simp add: I_def)
  from forEach_inv [of "[Min_X b .. Max_X b - 1]" I "\<lambda>st px. greedyStep img b st px py",
      OF step this]
  obtain st' where st': "forEach [Min_X b .. Max_X b - 1] (\<lambda>st px. greedyStep img b st px py) st = Some st'"
    "I ({} \<union> set [Min_X b .. Max_X b - 1]) st'"
    by blast
  have "S \<union> (\<lambda>px. (px, py)) ` ({} \<union> set [Min_X b .. Max_X b - 1]) =
        S \<union> {p. snd p = py \<and> Min_X b \<le> fst p \<and> fst p < Max_X b}"
    by auto
  with st'(2) have "greedyInv img b (S \<union> {p. snd p = py \<and> Min_X b \<le> fst p \<and> fst p < Max_X b}) st'"
    unfolding I_def by simp
  with st'(1) show ?thesis by blast
qed

lemma greedy_scan:
  assumes inv: "greedyInv img b {} st"
  shows "\<exists>st'. forEach [Min_Y b .. Max_Y b - 1]
             (\<lambda>st py. forEach [Min_X b .. Max_X b - 1] (\<lambda>st px. greedyStep img b st px py) st) st
           = Some st' \<and>
           greedyInv img b {p. PointIn (fst p) (snd p) b} st'"
proof -
  define I where "I T s = greedyInv img b {p. snd p \<in> T \<and> Min_X b \<le> fst p \<and> fst p < Max_X b} s"
    for T :: "int set" and s :: "bool list \<times> rectInfo list"
  let ?row = "\<lambda>st py. forEach [Min_X b .. Max_X b - 1] (\<lambda>st px. greedyStep img b st px py) st"
  have step: "\<exists>s'. ?row s k = Some s' \<and> I (insert k T) s'"
    if k: "k \<in> set [Min_Y b .. Max_Y b - 1]" and I: "I T s" for s k T
  proof -
    from k have row: "Min_Y b \<le> k" "k < Max_Y b"
      by simp_all
    have eq: "{p. snd p \<in> T \<and> Min_X b \<le> fst p \<and> fst p < Max_X b} \<union>
              {p. snd p = k \<and> Min_X b \<le> fst p \<and> fst p < Max_X b} =
              {p. snd p \<in> insert k T \<and> Min_X b \<le> fst p \<and> fst p < Max_X b}"
      by auto
    from greedy_row [OF I [unfolded I_def] row] show ?thesis
      unfolding I_def eq .
  qed
  have "I {} st"
    using inv by (simp add: I_def)
  from forEach_inv [of "[Min_Y b .. Max_Y b - 1]" I ?row, OF step this]
  obtain st' where st': "forEach [Min_Y b .. Max_Y b - 1] ?row st = Some st'"
    "I ({} \<union> set [Min_Y b .. Max_Y b - 1]) st'"
    by blast
  have "{p. snd p \<in> {} \<union> set [Min_Y b .. Max_Y b - 1] \<and> Min_X b \<le> fst p \<and> fst p < Max_X b} =
        {p. PointIn (fst p) (snd p) b}"
    by (auto simp: PointIn_def)
  with st'(2) have "greedyInv img b {p. PointIn (fst p) (snd p) b} st'"
    unfolding I_def by simp
  with st'(1) show ?thesis by blast
qed

text \<open>
  The outcome of the greedy scan on a well-formed rectangle: it returns, the rectangles
  are pairwise disjoint, each is uniform and not background, and every pixel of the
  bounds that is not background is covered.
\<close>

lemma optimizeRectangles_result:
  assumes "Min_X b \<le> Max_X b" "Min_Y b \<le> Max_Y b"
  shows "\<exists>rs. optimizeRectangles img b = Some rs \<and> disjointRects rs \<and>
           (\<forall>r \<in> set rs. rectOK img b r) \<and>
           (\<forall>px py. PointIn px py b \<and> \<not> background (getPixel img px py) \<longrightarrow>
              (\<exists>r \<in> set rs. covers r px py))"
proof -
  from assms have nn: "0 \<le> Dx b * Dy b"
    by (simp add: Dx_def Dy_def)
  from greedy_scan [OF greedyInv_init [OF nn]]
  obtain st' where st': "forEach [Min_Y b .. Max_Y b - 1]
             (\<lambda>st py. forEach [Min_X b .. Max_X b - 1] (\<lambda>st px. greedyStep img b st px py) st)
             (replicate (nat (Dx b * Dy b)) False, []) = Some st'"
    "greedyInv img b {p. PointIn (fst p) (snd p) b} st'"
    by blast
  have res: "optimizeRectangles img b = Some (snd st')"
    using nn st'(1) by (simp add: optimizeRectangles_def Let_def)
  from st'(2) have D: "disjointRects (snd st')" and R: "\<forall>r \<in> set (snd st'). rectOK img b r"
    and V: "\<And>qx qy. PointIn qx qy b \<Longrightarrow>
        flagged b (fst st') qx qy = (\<exists>r \<in> set (snd st'). covers r qx qy)"
    and P: "\<And>qx qy. PointIn qx qy b \<Longrightarrow> \<not> background (getPixel img qx qy) \<Longrightarrow>
        flagged b (fst st') qx qy"
    unfolding greedyInv_def by auto
  have "\<forall>px py. PointIn px py b \<and> \<not> background (getPixel img px py) \<longrightarrow>
      (\<exists>r \<in> set (snd st'). covers r px py)"
    using V P by blast
  with res D R show ?thesis by blast
qed

subsection \<open>Coverage and repainting\<close>

lemma rectOK_exact_cover:
  assumes R: "\<forall>r \<in> set rs. rectOK img b r"
    and C: "\<forall>px py. PointIn px py b \<and> \<not> background (getPixel img px py) \<longrightarrow>
              (\<exists>r \<in> set rs. covers r px py)"
  shows "(\<exists>r \<in> set rs. covers r px py \<and> ri_color r = c) =
         (PointIn px py b \<and> \<not> background (getPixel img px py) \<and> c = getPixel img px py)"
proof
  assume "\<exists>r \<in> set rs. covers r px py \<and> ri_color r = c"
  then obtain r where r: "r \<in> set rs" "covers r px py" "ri_color r = c" by blast
  from R r(1) have ok: "rectOK img b r" by blast
  from ok r(2) have "getPixel img px py = ri_color r" "\<not> background (ri_color r)"
    by (auto simp: rectOK_def)
  with rectOK_PointIn [OF ok r(2)] r(3)
  show "PointIn px py b \<and> \<not> background (getPixel img px py) \<and> c = getPixel img px py"
    by simp
next
  assume a: "PointIn px py b \<and> \<not> background (getPixel img px py) \<and> c = getPixel img px py"
  with C obtain r where r: "r \<in> set rs" "covers r px py" by blast
  from R r have "getPixel img px py = ri_color r"
    by (auto simp: rectOK_def)
  with a r show "\<exists>r \<in> set rs. covers r px py \<and> ri_color r = c" by auto
qed

lemma repaint_snoc:
  "repaint (rs @ [r]) p = (if covers r (fst p) (snd p) then Some (ri_color r) else repaint rs p)"
  by (simp add: repaint_def paintRect_def)

lemma repaint_uniform:
  assumes "\<forall>r \<in> set rs. covers r px py \<longrightarrow> ri_color r = c"
  shows "repaint rs (px, py) = (if \<exists>r \<in> set rs. covers r px py then Some c else None)"
  using assms
proof (induction rs rule: rev_induct)
  case Nil
  then show ?case by (simp add: repaint_def)
next
  case (snoc r rs)
  then show ?case
    by (auto simp: repaint_snoc)
qed

text \<open>
  C1. On a well-formed rectangle \<^verbatim>\<open>optimizeRectangles\<close> returns rectangles that are
  pairwise disjoint; every pixel inside a rectangle has exactly the rectangle's recorded
  colour (four channels); the pixels covered are exactly the pixels of the bounds that
  are not background (alpha 0, or red, green and blue 255); and repainting the
  rectangles on a blank canvas gives the image's colour on every such pixel and leaves
  every other pixel blank.
\<close>

theorem optimizeRectangles_exact_cover:
  assumes "Min_X b \<le> Max_X b" "Min_Y b \<le> Max_Y b"
  shows "\<exists>rs. optimizeRectangles img b = Some rs \<and>
           disjointRects rs \<and>
           (\<forall>r \<in> set rs. \<forall>px py. covers r px py \<longrightarrow> getPixel img px py = ri_color r) \<and>
           (\<forall>px py. (\<exists>r \<in> set rs. covers r px py) =
                     (PointIn px py b \<and> \<not> background (getPixel img px py))) \<and>
           (\<forall>px py. repaint rs (px, py) =
                     (if PointIn px py b \<and> \<not> background (getPixel img px py)
                      then Some (getPixel img px py) else None))"
proof -
  from optimizeRectangles_result [OF assms]
  obtain rs where rs: "optimizeRectangles img b = Some rs" "disjointRects rs"
    "\<forall>r \<in> set rs. rectOK img b r"
    "\<forall>px py. PointIn px py b \<and> \<not> background (getPixel img px py) \<longrightarrow>
       (\<exists>r \<in> set rs. covers r px py)"
    by blast
  note cover = rectOK_exact_cover [OF rs(3,4)]
  have col: "\<forall>r \<in> set rs. \<forall>px py. covers r px py \<longrightarrow> getPixel img px py = ri_color r"
    using rs(3) by (auto simp: rectOK_def)
  have cov: "(\<exists>r \<in> set rs. covers r px py) =
      (PointIn px py b \<and> \<not> background (getPixel img px py))" for px py
    using cover [of px py "getPixel img px py"] col by metis
  have rep: "repaint rs (px, py) =
      (if PointIn px py b \<and> \<not> background (getPixel img px py)
       then Some (getPixel img px py) else None)" for px py
  proof -
    have "\<forall>r \<in> set rs. covers r px py \<longrightarrow> ri_color r = getPixel img px py"
      using col by auto
    from repaint_uniform [OF this] show ?thesis
      unfolding cov .
  qed
  from rs(1,2) col cov rep show ?thesis by blast
qed

lemma sampleImage_rects:
  "optimizeRectangles sampleImage (Bounds sampleImage) =
     Some [mkRect 0 0 2 3 (0, 0, 0, 255), mkRect 2 0 2 1 (255, 0, 0, 255),
           mkRect 2 2 2 1 (255, 0, 0, 255)]"
  by code_simp

theorem optimizeRectangles_exact_cover_witness:
  "\<exists>rs. optimizeRectangles sampleImage (Bounds sampleImage) = Some rs \<and> disjointRects rs \<and>
      repaint rs (3, 2) = Some (255, 0, 0, 255) \<and> repaint rs (3, 1) = None \<and>
      repaint rs (4, 2) = None"
proof -
  have wf: "Min_X (Bounds sampleImage) \<le> Max_X (Bounds sampleImage)"
    "Min_Y (Bounds sampleImage) \<le> Max_Y (Bounds sampleImage)"
    by (simp_all add: sampleImage_def Rect_def)
  have px: "getPixel sampleImage 3 2 = (255, 0, 0, 255)"
    "background (getPixel sampleImage 3 1)" "\<not> background (255 :: 8 word, 0 :: 8 word, 0 :: 8 word, 255 :: 8 word)"
    "PointIn 3 2 (Bounds sampleImage)" "\<not> PointIn 4 2 (Bounds sampleImage)"
    by (simp_all add: getPixel_def sampleImage_def White_def shr8_def background_def
        PointIn_def Rect_def)
  from optimizeRectangles_exact_cover [OF wf, of sampleImage] px show ?thesis
    by auto
qed

subsection \<open>The four-phase decomposition: phases 1 and 2\<close>

declare forStep3.simps [simp del] rowScan.simps [simp del]

lemma forStep3_inv:
  assumes step: "\<And>s i. lo \<le> i \<Longrightarrow> i \<le> hi \<Longrightarrow> I s \<Longrightarrow> \<exists>s'. f s i = Some s' \<and> I s'"
  shows "lo \<le> i0 \<Longrightarrow> I s \<Longrightarrow> \<exists>s'. forStep3 i0 hi f s = Some s' \<and> I s'"
  using step
proof (induction i0 hi f s rule: forStep3.induct)
  case (1 i hi f s)
  show ?case
  proof (cases "i \<le> hi")
    case False
    then have "forStep3 i hi f s = Some s"
      by (subst forStep3.simps) simp
    with "1.prems"(2) show ?thesis by simp
  next
    case True
    from "1.prems"(3) [OF "1.prems"(1) True "1.prems"(2)]
    obtain s1 where s1: "f s i = Some s1" "I s1" by blast
    have lo: "lo \<le> i + 3" using "1.prems"(1) by simp
    have "forStep3 i hi f s = forStep3 (i + 3) hi f s1"
      using True s1(1) by (subst forStep3.simps) simp
    moreover from "1.IH" [OF True s1(1) lo s1(2) "1.prems"(3)]
    have "\<exists>s'. forStep3 (i + 3) hi f s1 = Some s' \<and> I s'"
      by blast
    ultimately show ?thesis by simp
  qed
qed

lemma readAt_in:
  assumes "PointIn px py b" "length vis = nat (Dx b * Dy b)"
  shows "readAt vis (getIndex b px py) = Some (flagged b vis px py)"
  using isVisited_in [OF assms] by (simp add: isVisited_def getIndex_def)

lemma uniformCells_spec:
  assumes len: "length vis = nat (Dx b * Dy b)"
    and inb: "\<forall>d \<in> set ds. PointIn (px + fst d) (py + snd d) b"
  shows "\<exists>u. uniformCells img b vis c px py ds = Some u \<and>
           (u \<longrightarrow> (\<forall>d \<in> set ds. \<not> flagged b vis (px + fst d) (py + snd d) \<and>
                                 getPixel img (px + fst d) (py + snd d) = c))"
  using inb
proof (induction ds)
  case Nil
  show ?case by (rule exI [of _ True]) simp
next
  case (Cons d ds)
  from Cons.prems have pin: "PointIn (px + fst d) (py + snd d) b"
    and rest: "\<forall>d \<in> set ds. PointIn (px + fst d) (py + snd d) b"
    by simp_all
  note rd = readAt_in [OF pin len]
  from Cons.IH [OF rest] obtain u where u: "uniformCells img b vis c px py ds = Some u"
    "u \<longrightarrow> (\<forall>d \<in> set ds. \<not> flagged b vis (px + fst d) (py + snd d) \<and>
                                 getPixel img (px + fst d) (py + snd d) = c)"
    by blast
  show ?case
  proof (cases "flagged b vis (px + fst d) (py + snd d) \<or> getPixel img (px + fst d) (py + snd d) \<noteq> c")
    case True
    then have "uniformCells img b vis c px py (d # ds) = Some False"
      using rd by auto
    then show ?thesis by blast
  next
    case False
    then have "uniformCells img b vis c px py (d # ds) = Some u"
      using rd u(1) by simp
    moreover have "u \<longrightarrow> (\<forall>e \<in> set (d # ds). \<not> flagged b vis (px + fst e) (py + snd e) \<and>
                                 getPixel img (px + fst e) (py + snd e) = c)"
      using False u(2) by simp
    ultimately show ?thesis by blast
  qed
qed

lemma markBlock_markVisited: "markBlock b vis px py = markVisited b vis px py 3 3"
proof -
  have "(py - Min_Y b + dy) * Dx b + (px - Min_X b) + dx = getIndex b (px + dx) (py + dy)"
    for dx dy
    by (simp add: getIndex_def algebra_simps)
  then show ?thesis
    by (simp add: markBlock_def markVisited_def Let_def)
qed

lemma covered_append:
  "(\<exists>r \<in> set (rs @ [n]). covers r qx qy) = ((\<exists>r \<in> set rs. covers r qx qy) \<or> covers n qx qy)"
  by auto

lemma oldInv_snoc:
  assumes inv: "oldInv img b vis C rects" and ok: "rectOK img b n"
    and len: "length vis' = length vis"
    and fl: "\<And>qx qy. PointIn qx qy b \<Longrightarrow> flagged b vis' qx qy \<Longrightarrow>
               flagged b vis qx qy \<or> covers n qx qy"
    and new: "\<And>p. p \<in> C' \<Longrightarrow> p \<notin> C \<Longrightarrow> PointIn (fst p) (snd p) b \<Longrightarrow>
               \<not> background (getPixel img (fst p) (snd p)) \<Longrightarrow>
               covers n (fst p) (snd p) \<or> (\<exists>r \<in> set rects. covers r (fst p) (snd p))"
  shows "oldInv img b vis' C' (rects @ [n])"
  unfolding oldInv_def
proof (intro conjI)
  show "length vis' = nat (Dx b * Dy b)"
    using inv len by (simp add: oldInv_def)
  show "\<forall>r \<in> set (rects @ [n]). rectOK img b r"
    using inv ok by (simp add: oldInv_def)
  show "\<forall>px py. PointIn px py b \<longrightarrow> flagged b vis' px py \<longrightarrow>
      (\<exists>r \<in> set (rects @ [n]). covers r px py)"
  proof (intro allI impI)
    fix px py assume p: "PointIn px py b" "flagged b vis' px py"
    from fl [OF p] inv p(1) show "\<exists>r \<in> set (rects @ [n]). covers r px py"
      unfolding covered_append oldInv_def by blast
  qed
  show "\<forall>p \<in> C'. PointIn (fst p) (snd p) b \<longrightarrow> \<not> background (getPixel img (fst p) (snd p)) \<longrightarrow>
      (\<exists>r \<in> set (rects @ [n]). covers r (fst p) (snd p))"
  proof (intro ballI impI)
    fix p assume p: "p \<in> C'" "PointIn (fst p) (snd p) b"
      "\<not> background (getPixel img (fst p) (snd p))"
    show "\<exists>r \<in> set (rects @ [n]). covers r (fst p) (snd p)"
    proof (cases "p \<in> C")
      case True
      with inv p(2,3) have "\<exists>r \<in> set rects. covers r (fst p) (snd p)"
        unfolding oldInv_def by blast
      then show ?thesis unfolding covered_append by blast
    next
      case False
      from new [OF p(1) False p(2,3)] show ?thesis
        unfolding covered_append by blast
    qed
  qed
qed

lemma oldInv_grow:
  assumes inv: "oldInv img b vis C rects"
    and new: "\<And>p. p \<in> C' \<Longrightarrow> p \<notin> C \<Longrightarrow> PointIn (fst p) (snd p) b \<Longrightarrow>
               \<not> background (getPixel img (fst p) (snd p)) \<Longrightarrow>
               (\<exists>r \<in> set rects. covers r (fst p) (snd p))"
  shows "oldInv img b vis C' rects"
  unfolding oldInv_def
proof (intro conjI)
  show "length vis = nat (Dx b * Dy b)" "\<forall>r \<in> set rects. rectOK img b r"
    "\<forall>px py. PointIn px py b \<longrightarrow> flagged b vis px py \<longrightarrow> (\<exists>r \<in> set rects. covers r px py)"
    using inv by (simp_all add: oldInv_def)
  show "\<forall>p \<in> C'. PointIn (fst p) (snd p) b \<longrightarrow> \<not> background (getPixel img (fst p) (snd p)) \<longrightarrow>
      (\<exists>r \<in> set rects. covers r (fst p) (snd p))"
  proof (intro ballI impI)
    fix p assume p: "p \<in> C'" "PointIn (fst p) (snd p) b"
      "\<not> background (getPixel img (fst p) (snd p))"
    show "\<exists>r \<in> set rects. covers r (fst p) (snd p)"
    proof (cases "p \<in> C")
      case True
      with inv p(2,3) show ?thesis
        unfolding oldInv_def by blast
    next
      case False
      from new [OF p(1) False p(2,3)] show ?thesis .
    qed
  qed
qed

lemma phase1Step_inv:
  assumes inv: "oldInv img b (fst st) {} (snd st)"
    and pos: "Min_X b \<le> px" "px \<le> Max_X b - 3" "Min_Y b \<le> py" "py \<le> Max_Y b - 3"
  shows "\<exists>st'. phase1Step img b st px py = Some st' \<and> oldInv img b (fst st') {} (snd st')"
proof -
  from inv have len: "length (fst st) = nat (Dx b * Dy b)"
    by (simp add: oldInv_def)
  define c where "c = getPixel img px py"
  have cells: "\<forall>d \<in> set block3. PointIn (px + fst d) (py + snd d) b"
    using pos by (simp add: block3_def PointIn_def)
  from uniformCells_spec [OF len cells, of img c]
  obtain u where u: "uniformCells img b (fst st) c px py block3 = Some u"
    "u \<longrightarrow> (\<forall>d \<in> set block3. \<not> flagged b (fst st) (px + fst d) (py + snd d) \<and>
                                 getPixel img (px + fst d) (py + snd d) = c)"
    by blast
  show ?thesis
  proof (cases "background c \<or> \<not> u")
    case True
    then have "phase1Step img b st px py = Some st"
      using u(1) by (auto simp: phase1Step_def c_def [symmetric] Let_def)
    with inv show ?thesis by simp
  next
    case False
    then have nb: "\<not> background c" and ut: u by simp_all
    have b3: "px + 3 \<le> Max_X b" "py + 3 \<le> Max_Y b"
      using pos by simp_all
    from markVisited_spec [OF len pos(1) b3(1) pos(3) b3(2)]
    obtain vis' where m: "markVisited b (fst st) px py 3 3 = Some vis'"
      "length vis' = length (fst st)"
      "\<And>qx qy. PointIn qx qy b \<Longrightarrow>
         flagged b vis' qx qy =
           (flagged b (fst st) qx qy \<or> (px \<le> qx \<and> qx < px + 3 \<and> py \<le> qy \<and> qy < py + 3))"
      by blast
    define n where "n = mkRect px py 3 3 c"
    have res: "phase1Step img b st px py = Some (vis', snd st @ [n])"
      using nb ut u(1) m(1)
      by (simp add: phase1Step_def c_def [symmetric] Let_def markBlock_markVisited n_def)
    have inside: "getPixel img qx qy = c" if "covers n qx qy" for qx qy
    proof -
      from that have r: "px \<le> qx \<and> qx < px + 3 \<and> py \<le> qy \<and> qy < py + 3"
        by (simp add: n_def covers_mkRect)
      then have "qx - px \<in> {0, 1, 2}" "qy - py \<in> {0, 1, 2}"
        by auto
      then have "(qx - px, qy - py) \<in> set block3"
        by (auto simp: block3_def)
      with u(2) ut have "getPixel img (px + (qx - px)) (py + (qy - py)) = c"
        by fastforce
      then show ?thesis by simp
    qed
    have nOK: "rectOK img b n"
      unfolding rectOK_def
      using pos b3 nb inside
      by (simp add: ri_color_mkRect [of px py 3 3 c, folded n_def]
          mkRect_fields [of px py 3 3 c, folded n_def])
    have "oldInv img b vis' {} (snd st @ [n])"
    proof (rule oldInv_snoc [OF inv nOK m(2)])
      fix qx qy assume "PointIn qx qy b" "flagged b vis' qx qy"
      then show "flagged b (fst st) qx qy \<or> covers n qx qy"
        using m(3) by (simp add: n_def covers_mkRect)
    qed simp
    with res show ?thesis by simp
  qed
qed

lemma phase1_inv:
  assumes inv: "oldInv img b (fst st) {} (snd st)"
  shows "\<exists>st'. phase1 img b st = Some st' \<and> oldInv img b (fst st') {} (snd st')"
proof -
  let ?I = "\<lambda>s. oldInv img b (fst s) {} (snd s)"
  have row: "\<exists>s'. forStep3 (Min_X b) (Max_X b - 3) (\<lambda>st px. phase1Step img b st px py) s = Some s' \<and> ?I s'"
    if "Min_Y b \<le> py" "py \<le> Max_Y b - 3" "?I s" for s py
  proof (rule forStep3_inv [where I = ?I and lo = "Min_X b"])
    fix s i assume "Min_X b \<le> i" "i \<le> Max_X b - 3" "?I s"
    then show "\<exists>s'. phase1Step img b s i py = Some s' \<and> ?I s'"
      using phase1Step_inv that(1,2) by blast
  qed (simp_all add: that)
  have "\<exists>s'. forStep3 (Min_Y b) (Max_Y b - 3)
       (\<lambda>st py. forStep3 (Min_X b) (Max_X b - 3) (\<lambda>st px. phase1Step img b st px py) st) st = Some s' \<and>
       ?I s'"
  proof (rule forStep3_inv [where I = ?I and lo = "Min_Y b"])
    fix s i assume "Min_Y b \<le> i" "i \<le> Max_Y b - 3" "?I s"
    then show "\<exists>s'. forStep3 (Min_X b) (Max_X b - 3) (\<lambda>st px. phase1Step img b st px i) s = Some s' \<and> ?I s'"
      by (rule row)
  qed (simp_all add: inv)
  then show ?thesis
    by (simp add: phase1_def)
qed
lemma runEnd_spec:
  assumes "length vis = nat (Dx b * Dy b)" "Min_Y b \<le> py" "py < Max_Y b"
    and "Min_X b \<le> px" "px \<le> Max_X b"
  shows "\<exists>qx. runEnd img b vis c py px = Some qx \<and> px \<le> qx \<and> qx \<le> Max_X b \<and>
           (\<forall>k. px \<le> k \<and> k < qx \<longrightarrow> getPixel img k py = c)"
  using assms
proof (induction img b vis c py px rule: runEnd.induct)
  case (1 img b vis c py px)
  show ?case
  proof (cases "px < Max_X b")
    case False
    then have "runEnd img b vis c py px = Some px"
      by (subst runEnd.simps) simp
    moreover have "\<forall>k. px \<le> k \<and> k < px \<longrightarrow> getPixel img k py = c"
      by auto
    ultimately show ?thesis
      using "1.prems"(5) by auto
  next
    case True
    then have pin: "PointIn px py b"
      using "1.prems" by (simp add: PointIn_def)
    note rd = readAt_in [OF pin "1.prems"(1)]
    show ?thesis
    proof (cases "flagged b vis px py \<or> getPixel img px py \<noteq> c")
      case stop: True
      then have "runEnd img b vis c py px = Some px"
        using True rd by (subst runEnd.simps) auto
      moreover have "\<forall>k. px \<le> k \<and> k < px \<longrightarrow> getPixel img k py = c"
        by auto
      ultimately show ?thesis
        using "1.prems"(5) by auto
    next
      case False
      then have nf: "\<not> flagged b vis px py" and nc: "\<not> getPixel img px py \<noteq> c"
        by simp_all
      have step: "runEnd img b vis c py px = runEnd img b vis c py (px + 1)"
        using True rd nf nc by (subst runEnd.simps) simp
      have p1: "Min_X b \<le> px + 1" "px + 1 \<le> Max_X b"
        using True "1.prems"(4) by simp_all
      from "1.IH" [OF True rd nf nc "1.prems"(1-3) p1]
      obtain qx where qx: "runEnd img b vis c py (px + 1) = Some qx" "px + 1 \<le> qx"
        "qx \<le> Max_X b" "\<forall>k. px + 1 \<le> k \<and> k < qx \<longrightarrow> getPixel img k py = c"
        by blast
      have "\<forall>k. px \<le> k \<and> k < qx \<longrightarrow> getPixel img k py = c"
      proof (intro allI impI)
        fix k assume k: "px \<le> k \<and> k < qx"
        show "getPixel img k py = c"
        proof (cases "k = px")
          case True
          then show ?thesis using nc by simp
        next
          case False
          with k have "px + 1 \<le> k \<and> k < qx" by simp
          with qx(4) show ?thesis by blast
        qed
      qed
      moreover from qx(2) have "px \<le> qx" by simp
      ultimately show ?thesis
        unfolding step using qx(1,3) by blast
    qed
  qed
qed

lemma rowScan_spec:
  assumes "Min_Y b \<le> py" "py < Max_Y b" "Min_X b \<le> px"
    and "oldInv img b vis (C \<union> {p. snd p = py \<and> fst p < px}) rects"
  shows "\<exists>rects'. rowScan img b vis py px rects = Some rects' \<and>
           oldInv img b vis (C \<union> {p. snd p = py}) rects'"
  using assms
proof (induction img b vis py px rects rule: rowScan.induct)
  case (1 img b vis py px rects)
  note inv = "1.prems"(4)
  from inv have len: "length vis = nat (Dx b * Dy b)"
    by (simp add: oldInv_def)
  show ?case
  proof (cases "px < Max_X b")
    case False
    then have res: "rowScan img b vis py px rects = Some rects"
      by (subst rowScan.simps) simp
    have "oldInv img b vis (C \<union> {p. snd p = py}) rects"
    proof (rule oldInv_grow [OF inv])
      fix p assume "p \<in> C \<union> {p. snd p = py}" "p \<notin> C \<union> {p. snd p = py \<and> fst p < px}"
        "PointIn (fst p) (snd p) b"
      then have False
        using False by (auto simp: PointIn_def)
      then show "\<exists>r \<in> set rects. covers r (fst p) (snd p)" ..
    qed
    with res show ?thesis by blast
  next
    case True
    then have pin: "PointIn px py b"
      using "1.prems" by (simp add: PointIn_def)
    note rd = readAt_in [OF pin len]
    have p1: "Min_X b \<le> px + 1"
      using "1.prems"(3) by simp
    define c where "c = getPixel img px py"
    show ?thesis
    proof (cases "flagged b vis px py")
      case fl: True
      have step: "rowScan img b vis py px rects = rowScan img b vis py (px + 1) rects"
        using True rd fl by (subst rowScan.simps) simp
      have "oldInv img b vis (C \<union> {p. snd p = py \<and> fst p < px + 1}) rects"
      proof (rule oldInv_grow [OF inv])
        fix p assume "p \<in> C \<union> {p. snd p = py \<and> fst p < px + 1}"
          "p \<notin> C \<union> {p. snd p = py \<and> fst p < px}"
        then have "fst p = px" "snd p = py" by auto
        moreover from inv pin fl have "\<exists>r \<in> set rects. covers r px py"
          unfolding oldInv_def by blast
        ultimately show "\<exists>r \<in> set rects. covers r (fst p) (snd p)" by simp
      qed
      from "1.IH"(1) [OF True rd fl "1.prems"(1,2) p1 this] show ?thesis
        unfolding step .
    next
      case nf: False
      show ?thesis
      proof (cases "background c")
        case bg: True
        have step: "rowScan img b vis py px rects = rowScan img b vis py (px + 1) rects"
          using True rd nf bg by (subst rowScan.simps) (simp add: c_def Let_def)
        have "oldInv img b vis (C \<union> {p. snd p = py \<and> fst p < px + 1}) rects"
        proof (rule oldInv_grow [OF inv])
          fix p assume "p \<in> C \<union> {p. snd p = py \<and> fst p < px + 1}"
            "p \<notin> C \<union> {p. snd p = py \<and> fst p < px}"
            "\<not> background (getPixel img (fst p) (snd p))"
          then have "fst p = px" "snd p = py" "\<not> background (getPixel img (fst p) (snd p))"
            by auto
          with bg have False by (simp add: c_def)
          then show "\<exists>r \<in> set rects. covers r (fst p) (snd p)" ..
        qed
        from "1.IH"(2) [OF True rd nf c_def bg "1.prems"(1,2) p1 this] show ?thesis
          unfolding step .
      next
        case nb: False
        have p1m: "px + 1 \<le> Max_X b"
          using True by simp
        from runEnd_spec [OF len "1.prems"(1,2) p1 p1m, of img c]
        obtain qx where qx: "runEnd img b vis c py (px + 1) = Some qx" "px + 1 \<le> qx"
          "qx \<le> Max_X b" "\<forall>k. px + 1 \<le> k \<and> k < qx \<longrightarrow> getPixel img k py = c"
          by blast
        define n where "n = mkRect px py (qx - px) 1 c"
        have step: "rowScan img b vis py px rects = rowScan img b vis py qx (rects @ [n])"
          using True rd nf nb qx(1) by (subst rowScan.simps) (simp add: c_def Let_def n_def)
        have cov: "covers n kx ky = (px \<le> kx \<and> kx < qx \<and> ky = py)" for kx ky
          by (auto simp: n_def covers_mkRect)
        have inside: "getPixel img kx ky = c" if "covers n kx ky" for kx ky
        proof (cases "kx = px")
          case True
          with that show ?thesis by (simp add: cov c_def)
        next
          case False
          with that have "px + 1 \<le> kx \<and> kx < qx" "ky = py"
            by (simp_all add: cov)
          with qx(4) show ?thesis by blast
        qed
        have nOK: "rectOK img b n"
          unfolding rectOK_def
          using "1.prems"(1-3) qx(2,3) nb inside
          by (simp add: ri_color_mkRect [of px py "qx - px" 1 c, folded n_def]
              mkRect_fields [of px py "qx - px" 1 c, folded n_def])
        have "oldInv img b vis (C \<union> {p. snd p = py \<and> fst p < qx}) (rects @ [n])"
        proof (rule oldInv_snoc [OF inv nOK])
          fix p assume "p \<in> C \<union> {p. snd p = py \<and> fst p < qx}"
            "p \<notin> C \<union> {p. snd p = py \<and> fst p < px}"
          then have "covers n (fst p) (snd p)"
            by (auto simp: cov)
          then show "covers n (fst p) (snd p) \<or> (\<exists>r \<in> set rects. covers r (fst p) (snd p))" ..
        qed simp_all
        moreover have "Min_X b \<le> qx"
          using qx(2) p1 by simp
        ultimately show ?thesis
          using "1.IH"(3) [OF True rd nf c_def nb qx(1) "1.prems"(1,2)] 
          unfolding step n_def by blast
      qed
    qed
  qed
qed

lemma phase2_inv:
  assumes inv: "oldInv img b vis {} rects"
  shows "\<exists>rects'. forEach [Min_Y b .. Max_Y b - 1]
             (\<lambda>rects py. rowScan img b vis py (Min_X b) rects) rects = Some rects' \<and>
           oldInv img b vis {p. PointIn (fst p) (snd p) b} rects'"
proof -
  define I where "I T rs = oldInv img b vis {p. snd p \<in> T} rs"
    for T :: "int set" and rs :: "rectInfo list"
  have step: "\<exists>s'. rowScan img b vis k (Min_X b) s = Some s' \<and> I (insert k T) s'"
    if k: "k \<in> set [Min_Y b .. Max_Y b - 1]" and I: "I T s" for s k T
  proof -
    from k have row: "Min_Y b \<le> k" "k < Max_Y b" by simp_all
    have "oldInv img b vis ({p. snd p \<in> T} \<union> {p. snd p = k \<and> fst p < Min_X b}) s"
    proof (rule oldInv_grow [OF I [unfolded I_def]])
      fix p assume "p \<in> {p. snd p \<in> T} \<union> {p. snd p = k \<and> fst p < Min_X b}"
        "p \<notin> {p. snd p \<in> T}" "PointIn (fst p) (snd p) b"
      then have False by (auto simp: PointIn_def)
      then show "\<exists>r \<in> set s. covers r (fst p) (snd p)" ..
    qed
    from rowScan_spec [OF row order_refl this]
    obtain s' where s': "rowScan img b vis k (Min_X b) s = Some s'"
      "oldInv img b vis ({p. snd p \<in> T} \<union> {p. snd p = k}) s'"
      by blast
    have "{p. snd p \<in> T} \<union> {p. snd p = k} = {p :: int \<times> int. snd p \<in> insert k T}"
      by auto
    with s' show ?thesis
      unfolding I_def by auto
  qed
  have "I {} rects"
    using inv by (simp add: I_def)
  from forEach_inv [of "[Min_Y b .. Max_Y b - 1]" I
      "\<lambda>rects py. rowScan img b vis py (Min_X b) rects", OF step this]
  obtain rects' where r: "forEach [Min_Y b .. Max_Y b - 1]
      (\<lambda>rects py. rowScan img b vis py (Min_X b) rects) rects = Some rects'"
    "I ({} \<union> set [Min_Y b .. Max_Y b - 1]) rects'"
    by blast
  have "oldInv img b vis {p. PointIn (fst p) (snd p) b} rects'"
  proof (rule oldInv_grow [OF r(2) [unfolded I_def]])
    fix p assume "p \<notin> {p. snd p \<in> {} \<union> set [Min_Y b .. Max_Y b - 1]}" "PointIn (fst p) (snd p) b"
    then have False by (auto simp: PointIn_def)
    then show "\<exists>r \<in> set rects'. covers r (fst p) (snd p)" ..
  qed
  with r(1) show ?thesis by blast
qed
subsection \<open>The four-phase decomposition: sorting and merging\<close>

lemma covers_widen:
  assumes "ri_y cur = ri_y nxt" "ri_height cur = ri_height nxt"
    "ri_x cur + ri_width cur = ri_x nxt" "0 \<le> ri_width cur" "0 \<le> ri_width nxt"
  shows "covers (cur\<lparr>ri_width := ri_width cur + ri_width nxt\<rparr>) px py =
         (covers cur px py \<or> covers nxt px py)"
  using assms by (auto simp: covers_def)

lemma covers_heighten:
  assumes "ri_x cur = ri_x nxt" "ri_width cur = ri_width nxt"
    "ri_y cur + ri_height cur = ri_y nxt" "0 \<le> ri_height cur" "0 \<le> ri_height nxt"
  shows "covers (cur\<lparr>ri_height := ri_height cur + ri_height nxt\<rparr>) px py =
         (covers cur px py \<or> covers nxt px py)"
  using assms by (auto simp: covers_def)

lemma mergeHorz_cover:
  assumes "0 \<le> ri_width cur" "\<forall>r \<in> set rest. 0 \<le> ri_width r"
  shows "(\<exists>r \<in> set (mergeHorz cur rest acc). covers r px py \<and> ri_color r = c) =
         (\<exists>r \<in> set (acc @ cur # rest). covers r px py \<and> ri_color r = c)"
  using assms
proof (induction rest arbitrary: cur acc)
  case Nil
  then show ?case by auto
next
  case (Cons nxt rest)
  from Cons.prems have w: "0 \<le> ri_width cur" "0 \<le> ri_width nxt"
    and rest: "\<forall>r \<in> set rest. 0 \<le> ri_width r"
    by simp_all
  show ?case
  proof (cases "ri_y cur = ri_y nxt \<and> ri_height cur = ri_height nxt \<and>
         ri_x cur + ri_width cur = ri_x nxt \<and>
         ri_r cur = ri_r nxt \<and> ri_g cur = ri_g nxt \<and> ri_b cur = ri_b nxt \<and>
         ri_a cur = ri_a nxt")
    case True
    let ?m = "cur\<lparr>ri_width := ri_width cur + ri_width nxt\<rparr>"
    have step: "mergeHorz cur (nxt # rest) acc = mergeHorz ?m rest acc"
      using True by simp
    have wm: "0 \<le> ri_width ?m"
      using w by simp
    have col: "ri_color ?m = ri_color cur" "ri_color nxt = ri_color cur"
      using True by (simp_all add: ri_color_def)
    have cov: "covers ?m px py = (covers cur px py \<or> covers nxt px py)"
      using True w by (intro covers_widen) simp_all
    have "(\<exists>r \<in> set (acc @ ?m # rest). covers r px py \<and> ri_color r = c) =
          (\<exists>r \<in> set (acc @ cur # nxt # rest). covers r px py \<and> ri_color r = c)"
      using cov col by auto
    with Cons.IH [OF wm rest, of acc] show ?thesis
      unfolding step by simp
  next
    case False
    then have step: "mergeHorz cur (nxt # rest) acc = mergeHorz nxt rest (acc @ [cur])"
      by auto
    from Cons.IH [OF w(2) rest, of "acc @ [cur]"] show ?thesis
      unfolding step by simp
  qed
qed

lemma mergeHorz_heights:
  assumes "0 \<le> ri_height cur" "\<forall>r \<in> set rest. 0 \<le> ri_height r" "\<forall>r \<in> set acc. 0 \<le> ri_height r"
  shows "\<forall>r \<in> set (mergeHorz cur rest acc). 0 \<le> ri_height r"
  using assms
proof (induction rest arbitrary: cur acc)
  case Nil
  then show ?case by simp
next
  case (Cons nxt rest)
  from Cons.prems have h: "0 \<le> ri_height cur" "0 \<le> ri_height nxt"
    and rest: "\<forall>r \<in> set rest. 0 \<le> ri_height r"
    and acc: "\<forall>r \<in> set acc. 0 \<le> ri_height r"
    by simp_all
  show ?case
  proof (cases "ri_y cur = ri_y nxt \<and> ri_height cur = ri_height nxt \<and>
         ri_x cur + ri_width cur = ri_x nxt \<and>
         ri_r cur = ri_r nxt \<and> ri_g cur = ri_g nxt \<and> ri_b cur = ri_b nxt \<and>
         ri_a cur = ri_a nxt")
    case True
    let ?m = "cur\<lparr>ri_width := ri_width cur + ri_width nxt\<rparr>"
    have step: "mergeHorz cur (nxt # rest) acc = mergeHorz ?m rest acc"
      using True by simp
    have hm: "0 \<le> ri_height ?m"
      using h by simp
    from Cons.IH [OF hm rest acc] show ?thesis
      unfolding step .
  next
    case False
    then have step: "mergeHorz cur (nxt # rest) acc = mergeHorz nxt rest (acc @ [cur])"
      by auto
    have acc': "\<forall>r \<in> set (acc @ [cur]). 0 \<le> ri_height r"
      using acc h(1) by simp
    from Cons.IH [OF h(2) rest acc'] show ?thesis
      unfolding step .
  qed
qed

lemma mergeVert_cover:
  assumes "0 \<le> ri_height cur" "\<forall>r \<in> set rest. 0 \<le> ri_height r"
  shows "(\<exists>r \<in> set (mergeVert cur rest acc). covers r px py \<and> ri_color r = c) =
         (\<exists>r \<in> set (acc @ cur # rest). covers r px py \<and> ri_color r = c)"
  using assms
proof (induction rest arbitrary: cur acc)
  case Nil
  then show ?case by auto
next
  case (Cons nxt rest)
  from Cons.prems have h: "0 \<le> ri_height cur" "0 \<le> ri_height nxt"
    and rest: "\<forall>r \<in> set rest. 0 \<le> ri_height r"
    by simp_all
  show ?case
  proof (cases "ri_x cur = ri_x nxt \<and> ri_width cur = ri_width nxt \<and>
         ri_y cur + ri_height cur = ri_y nxt \<and>
         ri_r cur = ri_r nxt \<and> ri_g cur = ri_g nxt \<and> ri_b cur = ri_b nxt \<and>
         ri_a cur = ri_a nxt")
    case True
    let ?m = "cur\<lparr>ri_height := ri_height cur + ri_height nxt\<rparr>"
    have step: "mergeVert cur (nxt # rest) acc = mergeVert ?m rest acc"
      using True by simp
    have hm: "0 \<le> ri_height ?m"
      using h by simp
    have col: "ri_color ?m = ri_color cur" "ri_color nxt = ri_color cur"
      using True by (simp_all add: ri_color_def)
    have cov: "covers ?m px py = (covers cur px py \<or> covers nxt px py)"
      using True h by (intro covers_heighten) simp_all
    have "(\<exists>r \<in> set (acc @ ?m # rest). covers r px py \<and> ri_color r = c) =
          (\<exists>r \<in> set (acc @ cur # nxt # rest). covers r px py \<and> ri_color r = c)"
      using cov col by auto
    with Cons.IH [OF hm rest, of acc] show ?thesis
      unfolding step by simp
  next
    case False
    then have step: "mergeVert cur (nxt # rest) acc = mergeVert nxt rest (acc @ [cur])"
      by auto
    from Cons.IH [OF h(2) rest, of "acc @ [cur]"] show ?thesis
      unfolding step by simp
  qed
qed

lemma set_insertBy: "set (insertBy lt e ds) = insert e (set ds)"
  by (induction ds) auto

lemma set_insertionSort: "set (insertionSort lt es) = set es"
  by (induction es) (simp_all add: insertionSort_def set_insertBy)

text \<open>
  The outcome of the four phases on a well-formed rectangle, for any sort that returns
  the elements it was given: the colour map of the result is the image on the pixels
  that are not background.
\<close>

lemma oldOptimizeRectangles_result:
  assumes wf: "Min_X b \<le> Max_X b" "Min_Y b \<le> Max_Y b"
    and perm: "\<And>lt xs. set (sortSlice lt xs) = set xs"
  shows "\<exists>rs. oldOptimizeRectangles sortSlice img b = Some rs \<and>
           (\<forall>px py c. (\<exists>r \<in> set rs. covers r px py \<and> ri_color r = c) =
              (PointIn px py b \<and> \<not> background (getPixel img px py) \<and> c = getPixel img px py))"
proof -
  from wf have nn: "0 \<le> Dx b * Dy b"
    by (simp add: Dx_def Dy_def)
  let ?st0 = "(replicate (nat (Dx b * Dy b)) False, [] :: rectInfo list)"
  have "\<not> flagged b (replicate (nat (Dx b * Dy b)) False) qx qy" if "PointIn qx qy b" for qx qy
  proof -
    from getIndex_range [OF that] have "nat (getIndex b qx qy) < nat (Dx b * Dy b)"
      by simp
    then show ?thesis by (simp add: flagged_def)
  qed
  then have "oldInv img b (fst ?st0) {} (snd ?st0)"
    by (simp add: oldInv_def)
  from phase1_inv [OF this]
  obtain st where st: "phase1 img b ?st0 = Some st" "oldInv img b (fst st) {} (snd st)"
    by blast
  from phase2_inv [OF st(2)]
  obtain rects where rects: "forEach [Min_Y b .. Max_Y b - 1]
      (\<lambda>rects py. rowScan img b (fst st) py (Min_X b) rects) (snd st) = Some rects"
    "oldInv img b (fst st) {p. PointIn (fst p) (snd p) b} rects"
    by blast
  from rects(2) have R: "\<forall>r \<in> set rects. rectOK img b r"
    and C: "\<forall>px py. PointIn px py b \<and> \<not> background (getPixel img px py) \<longrightarrow>
              (\<exists>r \<in> set rects. covers r px py)"
    unfolding oldInv_def by auto
  note exact = rectOK_exact_cover [OF R C]
  from R have dims: "\<forall>r \<in> set rects. 0 \<le> ri_width r" "\<forall>r \<in> set rects. 0 \<le> ri_height r"
    by (auto simp: rectOK_def)
  show ?thesis
  proof (cases "rects = []")
    case True
    then have res: "oldOptimizeRectangles sortSlice img b = Some rects"
      using nn st(1) rects(1) by (simp add: oldOptimizeRectangles_def Let_def)
    show ?thesis
    proof (intro exI conjI allI)
      show "oldOptimizeRectangles sortSlice img b = Some rects"
        by (rule res)
      show "(\<exists>r \<in> set rects. covers r px py \<and> ri_color r = c) =
          (PointIn px py b \<and> \<not> background (getPixel img px py) \<and> c = getPixel img px py)"
        for px py c
        by (rule exact)
    qed
  next
    case False
    then have "set (sortSlice lessYX rects) \<noteq> {}"
      by (simp add: perm)
    then obtain cur rest where s1: "sortSlice lessYX rects = cur # rest"
      by (cases "sortSlice lessYX rects") auto
    have set1: "set (cur # rest) = set rects"
      using perm [of lessYX rects] s1 by simp
    define merged where "merged = mergeHorz cur rest []"
    have w1: "0 \<le> ri_width cur" "\<forall>r \<in> set rest. 0 \<le> ri_width r"
      and h1: "0 \<le> ri_height cur" "\<forall>r \<in> set rest. 0 \<le> ri_height r"
      using dims set1 by auto
    have cov1: "(\<exists>r \<in> set merged. covers r px py \<and> ri_color r = c) =
        (\<exists>r \<in> set rects. covers r px py \<and> ri_color r = c)" for px py c
      by (simp only: merged_def mergeHorz_cover [OF w1] append_Nil set1)
    have hm: "\<forall>r \<in> set merged. 0 \<le> ri_height r"
      unfolding merged_def by (rule mergeHorz_heights [OF h1]) simp
    define final where "final =
      (case sortSlice lessXY merged of [] \<Rightarrow> [] | cur2 # rest2 \<Rightarrow> mergeVert cur2 rest2 [])"
    have res: "oldOptimizeRectangles sortSlice img b = Some final"
      using nn st(1) rects(1) False s1
      by (simp add: oldOptimizeRectangles_def Let_def final_def merged_def split: list.split)
    have cov2: "(\<exists>r \<in> set final. covers r px py \<and> ri_color r = c) =
        (\<exists>r \<in> set merged. covers r px py \<and> ri_color r = c)" for px py c
    proof (cases "sortSlice lessXY merged")
      case Nil
      then have "set merged = {}"
        using perm [of lessXY merged] by simp
      with Nil show ?thesis by (simp add: final_def)
    next
      case (Cons cur2 rest2)
      have set2: "set (cur2 # rest2) = set merged"
        using perm [of lessXY merged] Cons by simp
      have h2: "0 \<le> ri_height cur2" "\<forall>r \<in> set rest2. 0 \<le> ri_height r"
        using hm set2 by auto
      have "final = mergeVert cur2 rest2 []"
        using Cons by (simp add: final_def)
      then show ?thesis
        by (simp only: mergeVert_cover [OF h2] append_Nil set2)
    qed
    show ?thesis
    proof (intro exI conjI allI)
      show "oldOptimizeRectangles sortSlice img b = Some final"
        by (rule res)
      show "(\<exists>r \<in> set final. covers r px py \<and> ri_color r = c) =
          (PointIn px py b \<and> \<not> background (getPixel img px py) \<and> c = getPixel img px py)"
        for px py c
        unfolding cov2 cov1 by (rule exact)
    qed
  qed
qed

text \<open>
  C2. On a well-formed rectangle, and for any sort that returns the elements it was
  given, \<^verbatim>\<open>optimizeRectangles\<close> and \<^verbatim>\<open>oldOptimizeRectangles\<close> both return, and a pixel
  is covered by a rectangle of a given colour in one result exactly when it is in the
  other.
\<close>

theorem decompositions_same_colour_map:
  assumes "Min_X b \<le> Max_X b" "Min_Y b \<le> Max_Y b"
    and "\<And>lt xs. set (sortSlice lt xs) = set xs"
  shows "\<exists>rs rs'. optimizeRectangles img b = Some rs \<and>
           oldOptimizeRectangles sortSlice img b = Some rs' \<and>
           (\<forall>px py c. (\<exists>r \<in> set rs. covers r px py \<and> ri_color r = c) =
                        (\<exists>r \<in> set rs'. covers r px py \<and> ri_color r = c))"
proof -
  from optimizeRectangles_result [OF assms(1,2)]
  obtain rs where rs: "optimizeRectangles img b = Some rs"
    "\<forall>r \<in> set rs. rectOK img b r"
    "\<forall>px py. PointIn px py b \<and> \<not> background (getPixel img px py) \<longrightarrow>
       (\<exists>r \<in> set rs. covers r px py)"
    by blast
  from oldOptimizeRectangles_result [of b sortSlice img, OF assms(1,2) assms(3)]
  obtain rs' where rs': "oldOptimizeRectangles sortSlice img b = Some rs'"
    "\<forall>px py c. (\<exists>r \<in> set rs'. covers r px py \<and> ri_color r = c) =
       (PointIn px py b \<and> \<not> background (getPixel img px py) \<and> c = getPixel img px py)"
    by blast
  show ?thesis
  proof (intro exI conjI allI)
    show "optimizeRectangles img b = Some rs"
      by (rule rs(1))
    show "oldOptimizeRectangles sortSlice img b = Some rs'"
      by (rule rs'(1))
    show "(\<exists>r \<in> set rs. covers r px py \<and> ri_color r = c) =
        (\<exists>r \<in> set rs'. covers r px py \<and> ri_color r = c)" for px py c
      by (simp only: rectOK_exact_cover [OF rs(2,3)] rs'(2))
  qed
qed

lemma cornerImage_rects:
  "optimizeRectangles cornerImage (Bounds cornerImage) =
     Some [mkRect 0 0 1 2 (0, 0, 0, 255), mkRect 1 1 1 1 (0, 0, 0, 255)]"
  "oldOptimizeRectangles insertionSort cornerImage (Bounds cornerImage) =
     Some [mkRect 0 0 1 1 (0, 0, 0, 255), mkRect 0 1 2 1 (0, 0, 0, 255)]"
  by code_simp+

theorem decompositions_same_colour_map_witness:
  "\<exists>rs rs'. optimizeRectangles cornerImage (Bounds cornerImage) = Some rs \<and>
      oldOptimizeRectangles insertionSort cornerImage (Bounds cornerImage) = Some rs' \<and>
      (\<forall>px py c. (\<exists>r \<in> set rs. covers r px py \<and> ri_color r = c) =
                   (\<exists>r \<in> set rs'. covers r px py \<and> ri_color r = c))"
proof -
  have wf: "Min_X (Bounds cornerImage) \<le> Max_X (Bounds cornerImage)"
    "Min_Y (Bounds cornerImage) \<le> Max_Y (Bounds cornerImage)"
    by (simp_all add: cornerImage_def Rect_def)
  show ?thesis
    by (rule decompositions_same_colour_map [of "Bounds cornerImage" insertionSort cornerImage,
          OF wf set_insertionSort])
qed

end
